theory Spec2Isabelle
  imports Main "HOL-Library.Sublist" "HOL-Library.Product_Lexorder"
begin

section \<open>Python primitives used by the three scripts\<close>

text \<open>
  A Python \<open>str\<close> is modelled as a \<open>string\<close>: one \<open>char\<close> per code point, for texts
  whose code points are below 256.  \<open>py_isspace\<close> is \<open>str.isspace\<close> on that range; it is
  also the class \<open>\s\<close> of the \<open>re\<close> module for \<open>str\<close> patterns.
\<close>

definition py_isspace :: "char \<Rightarrow> bool" where
  "py_isspace c = ((of_char c :: nat) \<in> {9, 10, 11, 12, 13, 28, 29, 30, 31, 32, 133, 160})"

definition lstrip :: "string \<Rightarrow> string" where
  "lstrip s = dropWhile py_isspace s"

definition rstrip :: "string \<Rightarrow> string" where
  "rstrip s = rev (dropWhile py_isspace (rev s))"

definition strip :: "string \<Rightarrow> string" where
  "strip s = rstrip (lstrip s)"

text \<open>\<open>sub in s\<close> and \<open>s.startswith(p)\<close>.\<close>

definition py_in :: "string \<Rightarrow> string \<Rightarrow> bool" where
  "py_in sub s = sublist sub s"

definition startswith :: "string \<Rightarrow> string \<Rightarrow> bool" where
  "startswith s p = prefix p s"

text \<open>\<open>s.count(c)\<close> for a one-character \<open>c\<close>, as a Python integer.\<close>

definition count_chr :: "string \<Rightarrow> char \<Rightarrow> int" where
  "count_chr s c = int (length (filter (\<lambda>x. x = c) s))"

text \<open>\<open>xs[a:b]\<close> for indices \<open>0 \<le> a\<close>, \<open>0 \<le> b\<close> (a slice clamps, it never raises).\<close>

definition slice :: "'a list \<Rightarrow> nat \<Rightarrow> nat \<Rightarrow> 'a list" where
  "slice xs a b = take (b - a) (drop a xs)"

text \<open>\<open>content.split('\n')\<close> and \<open>'\n'.join(new_lines)\<close>.\<close>

fun split_nl :: "string \<Rightarrow> string list" where
  "split_nl [] = [[]]"
| "split_nl (c # cs) =
     (if c = CHR 0x0A then [] # split_nl cs
      else (case split_nl cs of [] \<Rightarrow> [[c]] | l # ls \<Rightarrow> (c # l) # ls))"

fun join_nl :: "string list \<Rightarrow> string" where
  "join_nl [] = []"
| "join_nl [l] = l"
| "join_nl (l # ls) = l @ CHR 0x0A # join_nl ls"

text \<open>The two quote characters, for writing texts that contain them.\<close>

definition sq :: string where
  "sq = [CHR 0x27]"


datatype py_error = FileNotFoundError | IsADirectoryError | ValueError

section \<open>Region Excision Engine (scripts/refactor\_phase5.py)\<close>

subsection \<open>Applying the collected ranges\<close>

text \<open>
  The \<open>while i < len(lines)\<close> loop: the inner \<open>for start, end in remove_ranges\<close> stops at
  the first range with \<open>start <= i < end\<close> and sets \<open>i = end\<close>; otherwise the line is
  appended and \<open>i\<close> advances by one.
\<close>

function apply_ranges :: "(nat \<times> nat) list \<Rightarrow> string list \<Rightarrow> nat \<Rightarrow> string list \<Rightarrow> string list" where
  "apply_ranges remove_ranges lines i new_lines =
     (if i < length lines then
        (case find (\<lambda>(start, end). start \<le> i \<and> i < end) remove_ranges of
           Some (start, end) \<Rightarrow> apply_ranges remove_ranges lines end new_lines
         | None \<Rightarrow> apply_ranges remove_ranges lines (i + 1) (new_lines @ [lines ! i]))
      else new_lines)"
  by pat_completeness auto
termination
proof (relation "measure (\<lambda>(rs, lines, i, acc). length lines - i)")
  show "wf (measure (\<lambda>(rs, lines, i, acc). length lines - i))" by simp
next
  fix remove_ranges :: "(nat \<times> nat) list" and lines :: "string list" and i :: nat
    and new_lines :: "string list" and x2 :: "nat \<times> nat" and x y :: nat
  assume "i < length lines"
    and "find (\<lambda>(start, end). start \<le> i \<and> i < end) remove_ranges = Some x2"
    and "(x, y) = x2"
  then have "i < y" by (auto simp: find_Some_iff)
  with \<open>i < length lines\<close>
  show "((remove_ranges, lines, y, new_lines), (remove_ranges, lines, i, new_lines))
          \<in> measure (\<lambda>(rs, lines, i, acc). length lines - i)"
    by simp
next
  fix remove_ranges :: "(nat \<times> nat) list" and lines :: "string list" and i :: nat
    and new_lines :: "string list"
  assume "i < length lines"
  then show "((remove_ranges, lines, i + 1, new_lines @ [lines ! i]), (remove_ranges, lines, i, new_lines))
          \<in> measure (\<lambda>(rs, lines, i, acc). length lines - i)"
    by simp
qed

text \<open>\<open>remove_ranges.sort()\<close> orders the tuples lexicographically, then the loop runs from 0.\<close>

definition excise :: "(nat \<times> nat) list \<Rightarrow> string list \<Rightarrow> string list" where
  "excise remove_ranges lines = apply_ranges (sort remove_ranges) lines 0 []"

text \<open>A line index is covered when some interval \<open>[start, end)\<close> contains it.\<close>

definition covered :: "(nat \<times> nat) list \<Rightarrow> nat \<Rightarrow> bool" where
  "covered rs i = (\<exists>(s, e) \<in> set rs. s \<le> i \<and> i < e)"

subsection \<open>Locating the regions\<close>

text \<open>
  Twelve of the thirteen scans have one shape:
  \<^verbatim>\<open>
  for i in range(len(lines)):
      if START(lines[i]):
          start = i
          for j in range(i+1, len(lines)):
              if END(lines, start, j):
                  remove_ranges.append(...)
                  break
          break
  \<close>
  \<open>scan_region\<close> is that shape; it yields the pair \<open>(start, j)\<close> of the two indices at
  which the breaks happen, and \<open>None\<close> when either loop runs to its end (nothing appended).
\<close>

definition find_start :: "(string \<Rightarrow> bool) \<Rightarrow> string list \<Rightarrow> nat option" where
  "find_start is_start lines = find (\<lambda>i. is_start (lines ! i)) [0..<length lines]"

definition scan_region ::
  "(string \<Rightarrow> bool) \<Rightarrow> (nat \<Rightarrow> nat \<Rightarrow> bool) \<Rightarrow> string list \<Rightarrow> (nat \<times> nat) option" where
  "scan_region is_start is_end lines =
     (case find_start is_start lines of
        None \<Rightarrow> None
      | Some start \<Rightarrow>
          (case find (\<lambda>j. is_end start j) [start + 1..<length lines] of
             None \<Rightarrow> None
           | Some j \<Rightarrow> Some (start, j)))"

text \<open>The usual appended tuple \<open>(start, j+1)\<close>.\<close>

definition through :: "(nat \<times> nat) option \<Rightarrow> (nat \<times> nat) option" where
  "through r = map_option (\<lambda>(start, j). (start, j + 1)) r"

text \<open>\<open>END in lines[j] and GUARD in ''.join(lines[start:j])\<close>\<close>

definition guarded_end :: "string \<Rightarrow> string \<Rightarrow> string list \<Rightarrow> nat \<Rightarrow> nat \<Rightarrow> bool" where
  "guarded_end end_text guard lines start j =
     (py_in end_text (lines ! j) \<and> py_in guard (concat (slice lines start j)))"

text \<open>1. focus listener\<close>

definition focus_listener :: "string list \<Rightarrow> (nat \<times> nat) option" where
  "focus_listener lines = through (scan_region
     (\<lambda>l. py_in ''// Add focus listener to reload data when returning to screen'' l)
     (\<lambda>start j. py_in ''navigation, passport, refreshFundItems]);'' (lines ! j)) lines)"

text \<open>2. blur listener\<close>

definition blur_listener :: "string list \<Rightarrow> (nat \<times> nat) option" where
  "blur_listener lines = through (scan_region
     (\<lambda>l. py_in ''// Add blur listener to save data when leaving the screen'' l)
     (guarded_end ''}, [navigation]);'' ''blur'' lines) lines)"

text \<open>3. cleanup useEffect\<close>

definition cleanup_effect :: "string list \<Rightarrow> (nat \<times> nat) option" where
  "cleanup_effect lines = through (scan_region
     (\<lambda>l. py_in ''// Cleanup effect (equivalent to componentWillUnmount)'' l)
     (guarded_end ''}, []);'' ''unmount'' lines) lines)"

text \<open>4. save status monitor useEffect\<close>

definition monitor_effect :: "string list \<Rightarrow> (nat \<times> nat) option" where
  "monitor_effect lines = through (scan_region
     (\<lambda>l. py_in ''// Monitor save status changes'' l)
     (guarded_end ''}, []);'' ''getSaveState'' lines) lines)"

text \<open>5. entry info initialization useEffect\<close>

definition entry_info_effect :: "string list \<Rightarrow> (nat \<times> nat) option" where
  "entry_info_effect lines = through (scan_region
     (\<lambda>l. py_in ''// Initialize entry_info when screen loads'' l)
     (\<lambda>start j. py_in ''initializeEntryInfo]);'' (lines ! j)) lines)"

text \<open>6. session state functions\<close>

definition session_state :: "string list \<Rightarrow> (nat \<times> nat) option" where
  "session_state lines = through (scan_region
     (\<lambda>l. py_in ''// Session state management functions'' l)
     (\<lambda>start j. py_in ''isLoading, scrollPosition]);'' (lines ! j)) lines)"

text \<open>7. clearUserData debug function\<close>

definition clear_user_data :: "string list \<Rightarrow> (nat \<times> nat) option" where
  "clear_user_data lines = through (scan_region
     (\<lambda>l. py_in ''// Debug function to clear user data'' l)
     (guarded_end ''  };'' ''clearUserData'' lines) lines)"

text \<open>8. debounced save: the range also takes the next line when it is blank.\<close>

definition debounced_save :: "string list \<Rightarrow> (nat \<times> nat) option" where
  "debounced_save lines = map_option
     (\<lambda>(start, j).
        if j + 1 < length lines \<and> strip (lines ! (j + 1)) = [] then (start, j + 2)
        else (start, j + 1))
     (scan_region
       (\<lambda>l. py_in ''// Create debounced save function with error handling'' l)
       (guarded_end ''  );'' ''debouncedSave'' lines) lines)"

text \<open>9. handleUserInteraction: both literals on the closing line.\<close>

definition handle_user_interaction :: "string list \<Rightarrow> (nat \<times> nat) option" where
  "handle_user_interaction lines = through (scan_region
     (\<lambda>l. py_in ''// Handle user interaction with tracking-enabled inputs'' l)
     (\<lambda>start j. py_in ''debouncedSaveData]);'' (lines ! j) \<and> py_in ''userInteractionTracker'' (lines ! j))
     lines)"

text \<open>
  10. handleFieldBlur: \<open>for j in range(i, len(lines))\<close> with the running \<open>brace_count\<close>,
  a Python integer that starts at 0 and may go below it.
\<close>

fun brace_loop :: "string list \<Rightarrow> nat \<Rightarrow> nat list \<Rightarrow> int \<Rightarrow> nat option" where
  "brace_loop lines i [] brace_count = None"
| "brace_loop lines i (j # js) brace_count =
     (let brace_count = brace_count + (count_chr (lines ! j) CHR ''{'' - count_chr (lines ! j) CHR ''}'')
      in if brace_count = 0 \<and> j > i then Some j else brace_loop lines i js brace_count)"

definition handle_field_blur :: "string list \<Rightarrow> (nat \<times> nat) option" where
  "handle_field_blur lines =
     (case find_start (\<lambda>l. strip l = ''const handleFieldBlur = async (fieldName, fieldValue) => {'') lines of
        None \<Rightarrow> None
      | Some start \<Rightarrow>
          (case brace_loop lines start [start..<length lines] 0 of
             None \<Rightarrow> None
           | Some j \<Rightarrow> Some (start, j + 1)))"

text \<open>11. performSaveOperation\<close>

definition perform_save_operation :: "string list \<Rightarrow> (nat \<times> nat) option" where
  "perform_save_operation lines = through (scan_region
     (\<lambda>l. py_in ''// Helper method to perform the actual save operation'' l)
     (\<lambda>start j. strip (lines ! j) = ''};'' \<and> py_in ''performSaveOperation'' (concat (slice lines start j)))
     lines)"

text \<open>12. saveDataToSecureStorageWithOverride\<close>

definition save_with_override :: "string list \<Rightarrow> (nat \<times> nat) option" where
  "save_with_override lines = through (scan_region
     (\<lambda>l. py_in ''// Enhanced debug logging for personal info saving'' l)
     (guarded_end ''};'' ''saveDataToSecureStorageWithOverride'' lines) lines)"

text \<open>13. wrapper saveDataToSecureStorage\<close>

definition save_wrapper :: "string list \<Rightarrow> (nat \<times> nat) option" where
  "save_wrapper lines = through (scan_region
     (\<lambda>l. startswith (strip l) ''// Save all data to secure storage'')
     (guarded_end ''  };'' ''saveDataToSecureStorageWithOverride()'' lines) lines)"

subsection \<open>The script\<close>

text \<open>\<open>remove_ranges\<close> after the thirteen scans, in the order of the appends.\<close>

definition remove_ranges :: "string list \<Rightarrow> (nat \<times> nat) list" where
  "remove_ranges lines = List.map_filter (\<lambda>r. r)
     [focus_listener lines, blur_listener lines, cleanup_effect lines, monitor_effect lines,
      entry_info_effect lines, session_state lines, clear_user_data lines, debounced_save lines,
      handle_user_interaction lines, handle_field_blur lines, perform_save_operation lines,
      save_with_override lines, save_wrapper lines]"

text \<open>
  The whole run on the one file it names: \<open>None\<close> is a missing file (\<open>open\<close> raises), the
  result is the text handed to \<open>f.write\<close>.  No other statement of the script raises.
\<close>

definition refactor_phase5 :: "string option \<Rightarrow> py_error + string" where
  "refactor_phase5 file =
     (case file of
        None \<Rightarrow> Inl FileNotFoundError
      | Some content \<Rightarrow>
          (let lines = split_nl content;
               new_lines = excise (remove_ranges lines) lines
           in Inr (join_nl new_lines)))"

text \<open>
  The running counter of the balanced-delimiter end, read off the lines: opening minus
  closing braces on the lines \<open>i, \<dots>, j\<close>.
\<close>

definition brace_balance :: "string list \<Rightarrow> nat \<Rightarrow> nat \<Rightarrow> int" where
  "brace_balance lines i j =
     (\<Sum>k\<leftarrow>[i..<j + 1]. count_chr (lines ! k) CHR ''{'' - count_chr (lines ! k) CHR ''}'')"

section \<open>Regular expressions as the \<open>re\<close> module runs them\<close>

text \<open>
  The constructs the seven patterns of the scripts use.  Quantifiers stand on character
  classes only (\<open>\s+\<close>, \<open>[^;]+?\<close>, \<open>[^>]*\<close> and the like), the one optional part is a group.
\<close>

datatype rex =
    Eps
  | Lit string
  | Chr "char \<Rightarrow> bool"
  | Cat rex rex
  | Alt rex rex
  | Grp nat rex
  | Opt rex
  | StarG "char \<Rightarrow> bool"
  | StarL "char \<Rightarrow> bool"

type_synonym caps = "nat \<Rightarrow> string option"

text \<open>
  The backtracking matcher, with the rest of the pattern as a continuation: alternatives
  are tried in the order of the pattern, a greedy quantifier tries one more character
  before it tries the continuation, a lazy one tries the continuation first.  The
  captures map a group number to the text the group matched last.
\<close>

fun bt :: "rex \<Rightarrow> string \<Rightarrow> caps \<Rightarrow> (string \<Rightarrow> caps \<Rightarrow> 'a option) \<Rightarrow> 'a option" where
  "bt Eps s c k = k s c"
| "bt (Lit w) s c k = (if prefix w s then k (drop (length w) s) c else None)"
| "bt (Chr p) [] c k = None"
| "bt (Chr p) (x # xs) c k = (if p x then k xs c else None)"
| "bt (Cat a b) s c k = bt a s c (\<lambda>s' c'. bt b s' c' k)"
| "bt (Alt a b) s c k = (case bt a s c k of Some r \<Rightarrow> Some r | None \<Rightarrow> bt b s c k)"
| "bt (Grp n a) s c k = bt a s c (\<lambda>s' c'. k s' (c'(n \<mapsto> take (length s - length s') s)))"
| "bt (Opt a) s c k = (case bt a s c k of Some r \<Rightarrow> Some r | None \<Rightarrow> k s c)"
| "bt (StarG p) [] c k = k [] c"
| "bt (StarG p) (x # xs) c k =
     (if p x then (case bt (StarG p) xs c k of Some r \<Rightarrow> Some r | None \<Rightarrow> k (x # xs) c)
      else k (x # xs) c)"
| "bt (StarL p) [] c k = k [] c"
| "bt (StarL p) (x # xs) c k =
     (case k (x # xs) c of
        Some r \<Rightarrow> Some r
      | None \<Rightarrow> if p x then bt (StarL p) xs c k else None)"

text \<open>\<open>c+\<close> and \<open>c+?\<close>: one character, then the star.\<close>

definition PlusG :: "(char \<Rightarrow> bool) \<Rightarrow> rex" where
  "PlusG p = Cat (Chr p) (StarG p)"

definition PlusL :: "(char \<Rightarrow> bool) \<Rightarrow> rex" where
  "PlusL p = Cat (Chr p) (StarL p)"

fun seq :: "rex list \<Rightarrow> rex" where
  "seq [] = Eps"
| "seq [r] = r"
| "seq (r # rs) = Cat r (seq rs)"

text \<open>
  A match that starts at the head of \<open>s\<close>: the text left after it, and the captures.
\<close>

definition match_here :: "rex \<Rightarrow> string \<Rightarrow> (string \<times> caps) option" where
  "match_here r s = bt r s (\<lambda>n. None) (\<lambda>s' c. Some (s', c))"

text \<open>\<open>pattern.search(text) is not None\<close>: some position has a match.\<close>

fun search :: "rex \<Rightarrow> string \<Rightarrow> bool" where
  "search r [] = (match_here r [] \<noteq> None)"
| "search r (x # xs) = (match_here r (x # xs) \<noteq> None \<or> search r xs)"

text \<open>
  \<open>pattern.subn(repl, text)\<close> for a function \<open>repl\<close>: the leftmost match is replaced, the
  scan goes on behind it; a character no match starts at is copied.  After an empty
  match the next character is copied.  The result is the new text and the count.
\<close>

function subn :: "rex \<Rightarrow> (caps \<Rightarrow> string) \<Rightarrow> string \<Rightarrow> string \<times> nat" where
  "subn r repl [] =
     (case match_here r [] of None \<Rightarrow> ([], 0) | Some (rest, c) \<Rightarrow> (repl c, 1))"
| "subn r repl (x # xs) =
     (case match_here r (x # xs) of
        None \<Rightarrow> (let (t, n) = subn r repl xs in (x # t, n))
      | Some (rest, c) \<Rightarrow>
          if length rest < length (x # xs)
          then (let (t, n) = subn r repl rest in (repl c @ t, n + 1))
          else (let (t, n) = subn r repl xs in (repl c @ x # t, n + 1)))"
  by pat_completeness auto
termination
  by (relation "measure (\<lambda>(r, repl, s). length s)") auto

text \<open>The character classes of the patterns.\<close>

definition is_alpha :: "char \<Rightarrow> bool" where
  "is_alpha c = (let n = (of_char c :: nat) in (65 \<le> n \<and> n \<le> 90) \<or> (97 \<le> n \<and> n \<le> 122))"

definition is_alnum :: "char \<Rightarrow> bool" where
  "is_alnum c = (let n = (of_char c :: nat) in
     (65 \<le> n \<and> n \<le> 90) \<or> (97 \<le> n \<and> n \<le> 122) \<or> (48 \<le> n \<and> n \<le> 57))"

definition is_quote :: "char \<Rightarrow> bool" where
  "is_quote c = (c = CHR 0x27 \<or> c = CHR 0x22)"

definition path_chr :: "char \<Rightarrow> bool" where
  "path_chr c = (c \<noteq> CHR 0x27 \<and> c \<noteq> CHR 0x22 \<and> c \<noteq> CHR ''?'')"

definition not_chr :: "char \<Rightarrow> char \<Rightarrow> bool" where
  "not_chr x c = (c \<noteq> x)"

section \<open>Reference Rewriter (scripts/remove\_js\_import\_extensions.py)\<close>

text \<open>
  \<^verbatim>\<open>IMPORT_RE  = (from\s+['\"])([^'\"?]+?)(\.js)(['\"])\<close>
  \<^verbatim>\<open>EXPORT_RE  = (import\s+[^;]+?\s+from\s+['\"])([^'\"?]+?)(\.js)(['\"])\<close>
  \<^verbatim>\<open>REQUIRE_RE = (require\(\s*['\"])([^'\"?]+?)(\.js)(['\"]\s*\))\<close>
  \<^verbatim>\<open>DYNAMIC_IMPORT_RE = (import\(\s*['\"])([^'\"?]+?)(\.js)(['\"]\s*\))\<close>
  (\<open>re.MULTILINE\<close> changes \<open>^\<close> and \<open>$\<close> only, which no pattern has.)
\<close>

definition IMPORT_RE :: rex where
  "IMPORT_RE = seq
     [Grp 1 (seq [Lit ''from'', PlusG py_isspace, Chr is_quote]),
      Grp 2 (PlusL path_chr),
      Grp 3 (Lit ''.js''),
      Grp 4 (Chr is_quote)]"

definition EXPORT_RE :: rex where
  "EXPORT_RE = seq
     [Grp 1 (seq [Lit ''import'', PlusG py_isspace, PlusL (not_chr CHR '';''), PlusG py_isspace,
                  Lit ''from'', PlusG py_isspace, Chr is_quote]),
      Grp 2 (PlusL path_chr),
      Grp 3 (Lit ''.js''),
      Grp 4 (Chr is_quote)]"

definition REQUIRE_RE :: rex where
  "REQUIRE_RE = seq
     [Grp 1 (seq [Lit ''require('', StarG py_isspace, Chr is_quote]),
      Grp 2 (PlusL path_chr),
      Grp 3 (Lit ''.js''),
      Grp 4 (seq [Chr is_quote, StarG py_isspace, Lit '')''])]"

definition DYNAMIC_IMPORT_RE :: rex where
  "DYNAMIC_IMPORT_RE = seq
     [Grp 1 (seq [Lit ''import('', StarG py_isspace, Chr is_quote]),
      Grp 2 (PlusL path_chr),
      Grp 3 (Lit ''.js''),
      Grp 4 (seq [Chr is_quote, StarG py_isspace, Lit '')''])]"

text \<open>\<open>match.group(n)\<close> inside an f-string: a group that took no part prints as \<open>None\<close>.\<close>

definition group :: "caps \<Rightarrow> nat \<Rightarrow> string" where
  "group c n = (case c n of Some w \<Rightarrow> w | None \<Rightarrow> ''None'')"

definition strip_suffix :: "caps \<Rightarrow> string" where
  "strip_suffix c = group c 1 @ group c 2 @ group c 4"

text \<open>One turn of the loop over the four patterns, on the pair \<open>(text, updated)\<close>.\<close>

definition apply_pattern :: "rex \<Rightarrow> string \<times> bool \<Rightarrow> string \<times> bool" where
  "apply_pattern pattern st =
     (let (new_text, count) = subn pattern strip_suffix (fst st)
      in if count \<noteq> 0 then (new_text, True) else st)"

definition rewrite_text :: "string \<Rightarrow> string \<times> bool" where
  "rewrite_text text =
     fold apply_pattern [IMPORT_RE, EXPORT_RE, REQUIRE_RE, DYNAMIC_IMPORT_RE] (text, False)"



section \<open>Classifier and Renamer (scripts/migrate\_app\_js\_to\_ts.py)\<close>

text \<open>A path is the tuple of its parts below \<open>APP_ROOT\<close>, the file name last.\<close>

type_synonym path = "string list"

definition FORCE_TSX_SEGMENTS :: "string set" where
  "FORCE_TSX_SEGMENTS = {''components'', ''screens'', ''templates''}"

text \<open>
  \<^verbatim>\<open></\s*[A-Za-z][A-Za-z0-9]*(\s|>)\<close>,
  \<^verbatim>\<open><\s*[A-Za-z][A-Za-z0-9]*(\s[^>]*?)?/>\<close>,
  \<^verbatim>\<open><\s*[A-Za-z][A-Za-z0-9]*\s[^>]*>\<close>
\<close>

definition JSX_SNIPPETS :: "rex list" where
  "JSX_SNIPPETS =
     [seq [Lit ''</'', StarG py_isspace, Chr is_alpha, StarG is_alnum,
           Grp 1 (Alt (Chr py_isspace) (Lit ''>''))],
      seq [Lit ''<'', StarG py_isspace, Chr is_alpha, StarG is_alnum,
           Opt (Grp 1 (seq [Chr py_isspace, StarL (not_chr CHR ''>'')])), Lit ''/>''],
      seq [Lit ''<'', StarG py_isspace, Chr is_alpha, StarG is_alnum, Chr py_isspace,
           StarG (not_chr CHR ''>''), Lit ''>'']]"

definition should_force_tsx :: "path \<Rightarrow> bool" where
  "should_force_tsx path = (FORCE_TSX_SEGMENTS \<inter> set path \<noteq> {})"

definition contains_jsx :: "string \<Rightarrow> bool" where
  "contains_jsx text = list_ex (\<lambda>regex. search regex text) JSX_SNIPPETS"

definition target_extension :: "path \<Rightarrow> string \<Rightarrow> string" where
  "target_extension path text =
     (if should_force_tsx path then ''.tsx''
      else if contains_jsx text then ''.tsx''
      else ''.ts'')"

definition TS_NOCHECK_BANNER :: string where
  "TS_NOCHECK_BANNER = ''// @ts-nocheck'' @ [CHR 0x0A, CHR 0x0A]"

definition ensure_banner :: "string \<Rightarrow> string" where
  "ensure_banner text =
     (let stripped = lstrip text
      in if startswith stripped ''// @ts-nocheck'' \<or> startswith stripped ''/* @ts-nocheck'' then text
         else TS_NOCHECK_BANNER @ text)"

text \<open>
  \<open>PurePath.name\<close> (empty for the root itself), \<open>PurePath.suffix\<close> of a name, and
  \<open>with_suffix\<close> for the suffixes \<open>.ts\<close> and \<open>.tsx\<close> (which it accepts): it raises
  \<open>ValueError\<close> on an empty name, and otherwise replaces the suffix of the name, or adds
  the new one when the name has none.
\<close>

definition path_name :: "path \<Rightarrow> string" where
  "path_name path = (if path = [] then [] else last path)"

definition rfind_dot :: "string \<Rightarrow> nat option" where
  "rfind_dot name =
     (if CHR ''.'' \<in> set name
      then Some (length name - 1 - length (takeWhile (\<lambda>x. x \<noteq> CHR ''.'') (rev name)))
      else None)"

definition name_suffix :: "string \<Rightarrow> string" where
  "name_suffix name =
     (case rfind_dot name of
        None \<Rightarrow> []
      | Some i \<Rightarrow> if 0 < i \<and> i < length name - 1 then drop i name else [])"

definition with_suffix :: "path \<Rightarrow> string \<Rightarrow> py_error + path" where
  "with_suffix path sfx =
     (let name = path_name path
      in if name = [] then Inl ValueError
         else (let old_suffix = name_suffix name
               in Inr (butlast path @
                    [if old_suffix = [] then name @ sfx
                     else take (length name - length old_suffix) name @ sfx])))"

text \<open>
  The file system below \<open>APP_ROOT\<close>: what stands at a path, if anything.  \<open>read_text\<close>
  raises on a missing path and on a directory.  \<open>convert_file\<close> returns the new file
  system with the result; the pair of paths stands for the two paths the script returns
  relative to \<open>REPO_ROOT\<close>.
\<close>

datatype node = File string | Dir

type_synonym fs = "path \<Rightarrow> node option"

definition convert_file :: "fs \<Rightarrow> path \<Rightarrow> bool \<Rightarrow> py_error + (fs \<times> (path \<times> path) option)" where
  "convert_file files path dry_run =
     (case files path of
        None \<Rightarrow> Inl FileNotFoundError
      | Some Dir \<Rightarrow> Inl IsADirectoryError
      | Some (File text) \<Rightarrow>
          (let new_suffix = target_extension path text
           in case with_suffix path new_suffix of
                Inl e \<Rightarrow> Inl e
              | Inr new_path \<Rightarrow>
                  if files new_path \<noteq> None then Inr (files, None)
                  else (let updated_text = ensure_banner text
                        in if dry_run then Inr (files, Some (path, new_path))
                           else Inr ((files(new_path \<mapsto> File updated_text))(path := None),
                                     Some (path, new_path)))))"

definition endswith :: "string \<Rightarrow> string \<Rightarrow> bool" where
  "endswith s p = suffix p s"

text \<open>
  The loop of \<open>main\<close> over the files \<open>gather_js_files()\<close> listed, with the two counters; an
  exception of \<open>convert_file\<close> ends the run.
\<close>

fun main_loop :: "fs \<Rightarrow> bool \<Rightarrow> path list \<Rightarrow> nat \<Rightarrow> nat \<Rightarrow> py_error + (fs \<times> nat \<times> nat)" where
  "main_loop files dry_run [] conversions skipped = Inr (files, conversions, skipped)"
| "main_loop files dry_run (js_file # rest) conversions skipped =
     (if \<not> endswith (path_name js_file) ''.js'' then main_loop files dry_run rest conversions skipped
      else (case convert_file files js_file dry_run of
              Inl e \<Rightarrow> Inl e
            | Inr (files', None) \<Rightarrow> main_loop files' dry_run rest conversions (skipped + 1)
            | Inr (files', Some result) \<Rightarrow> main_loop files' dry_run rest (conversions + 1) skipped))"

section \<open>Notions used in the statements and proofs about the patterns\<close>

text \<open>The texts a pattern can match, without the order in which the matcher tries them.\<close>

fun lang :: "rex \<Rightarrow> string set" where
  "lang Eps = {[]}"
| "lang (Lit w) = {w}"
| "lang (Chr p) = {[x] | x. p x}"
| "lang (Cat a b) = {u @ v | u v. u \<in> lang a \<and> v \<in> lang b}"
| "lang (Alt a b) = lang a \<union> lang b"
| "lang (Grp n a) = lang a"
| "lang (Opt a) = insert [] (lang a)"
| "lang (StarG p) = {w. \<forall>x \<in> set w. p x}"
| "lang (StarL p) = {w. \<forall>x \<in> set w. p x}"

text \<open>A pattern without a capturing group leaves the captures as they are.\<close>

fun nogrp :: "rex \<Rightarrow> bool" where
  "nogrp (Cat a b) = (nogrp a \<and> nogrp b)"
| "nogrp (Alt a b) = (nogrp a \<and> nogrp b)"
| "nogrp (Grp n a) = False"
| "nogrp (Opt a) = nogrp a"
| "nogrp r = True"

text \<open>
  The three JSX signatures, read off the patterns of \<open>JSX_SNIPPETS\<close>: a closing tag
  (\<open></\<close>, whitespace, a name, then whitespace or \<open>>\<close>), a self-closing tag (\<open><\<close>,
  whitespace, a name, optionally whitespace and a text without \<open>>\<close>, then \<open>/>\<close>) and an
  opening tag (\<open><\<close>, whitespace, a name, whitespace, a text without \<open>>\<close>, then \<open>>\<close>).
  A name is a letter followed by letters and digits.
\<close>

definition closing_tag :: "string \<Rightarrow> bool" where
  "closing_tag u =
     (\<exists>ws a n e. u = ''</'' @ ws @ a # n @ [e] \<and>
        (\<forall>x \<in> set ws. py_isspace x) \<and> is_alpha a \<and> (\<forall>x \<in> set n. is_alnum x) \<and>
        (py_isspace e \<or> e = CHR ''>''))"

definition self_closing_tag :: "string \<Rightarrow> bool" where
  "self_closing_tag u =
     (\<exists>ws a n attrs. u = ''<'' @ ws @ a # n @ attrs @ ''/>'' \<and>
        (\<forall>x \<in> set ws. py_isspace x) \<and> is_alpha a \<and> (\<forall>x \<in> set n. is_alnum x) \<and>
        (attrs = [] \<or> (\<exists>sp r. attrs = sp # r \<and> py_isspace sp \<and> (\<forall>x \<in> set r. x \<noteq> CHR ''>''))))"

definition opening_tag :: "string \<Rightarrow> bool" where
  "opening_tag u =
     (\<exists>ws a n sp r. u = ''<'' @ ws @ a # n @ sp # r @ ''>'' \<and>
        (\<forall>x \<in> set ws. py_isspace x) \<and> is_alpha a \<and> (\<forall>x \<in> set n. is_alnum x) \<and>
        py_isspace sp \<and> (\<forall>x \<in> set r. x \<noteq> CHR ''>''))"

text \<open>What one line adds to the brace counter.\<close>

definition delta :: "string list \<Rightarrow> nat \<Rightarrow> int" where
  "delta lines k = count_chr (lines ! k) CHR ''{'' - count_chr (lines ! k) CHR ''}''"

section \<open>Example inputs\<close>

definition nested_block :: "string list" where
  "nested_block =
     [''  const handleFieldBlur = async (fieldName, fieldValue) => {'',
      ''    if (fieldName) {'',
      ''      if (fieldValue) {'',
      ''        save({ name: fieldName });'',
      ''      }'',
      ''    }'',
      ''  };'',
      ''  const next = 1;'']"




definition collision_fs :: fs where
  "collision_fs =
     [[''utils'', ''date.js''] \<mapsto> File ''export const a = 1;'',
      [''utils'', ''date.ts''] \<mapsto> File ''export const a: number = 2;'']"

definition import_a :: string where
  "import_a = ''import x from '' @ sq @ ''./a.js'' @ sq"

definition import_a_twice :: string where
  "import_a_twice = ''import x from '' @ sq @ ''./a.js.js'' @ sq"



definition comparison_and_generic :: string where
  "comparison_and_generic = ''x = a < b ; y = new Map<string>()''"


definition unterminated_then_entry :: string where
  "unterminated_then_entry =
     ''  // Add focus listener to reload data when returning to screen'' @ [CHR 0x0A] @
     ''  const x = 1;'' @ [CHR 0x0A] @
     ''  // Initialize entry_info when screen loads'' @ [CHR 0x0A] @
     ''  }, [initializeEntryInfo]);'' @ [CHR 0x0A] @
     ''  const y = 2;''"

definition unguarded_block_first :: "string list" where
  "unguarded_block_first =
     [''  // Cleanup effect (equivalent to componentWillUnmount)'',
      ''  useEffect(() => { start(); }'',
      ''  }, []);'',
      ''  useEffect(() => { return unmount; }'',
      ''  }, []);'',
      ''  const x = 1;'']"

section \<open>Region Excision Engine: the retain/drop pass\<close>

declare apply_ranges.simps [simp del]

lemma covered_sort: "covered (sort rs) i = covered rs i"
  by (simp add: covered_def)

lemma find_covered_None: "find (\<lambda>(s, e). s \<le> i \<and> i < e) rs = None \<longleftrightarrow> \<not> covered rs i"
  by (auto simp: find_None_iff covered_def)

lemma find_covered_Some:
  "find (\<lambda>(s, e). s \<le> i \<and> i < e) rs = Some (s, e) \<Longrightarrow> \<forall>k. s \<le> k \<and> k < e \<longrightarrow> covered rs k"
proof -
  assume "find (\<lambda>(s, e). s \<le> i \<and> i < e) rs = Some (s, e)"
  then have "(s, e) \<in> set rs" by (metis find_Some_iff nth_mem)
  then show ?thesis unfolding covered_def by auto
qed

lemma filter_upt_skip:
  assumes "\<forall>k. i \<le> k \<and> k < e \<longrightarrow> P k" "i \<le> e"
  shows "filter (\<lambda>k. \<not> P k) [i..<n] = filter (\<lambda>k. \<not> P k) [e..<n]"
proof (cases "e \<le> n")
  case True
  with assms have "[i..<n] = [i..<e] @ [e..<n]"
    by (metis le_Suc_ex upt_add_eq_append)
  moreover have "filter (\<lambda>k. \<not> P k) [i..<e] = []" using assms by (auto simp: filter_empty_conv)
  ultimately show ?thesis by simp
next
  case False
  then have "filter (\<lambda>k. \<not> P k) [i..<n] = []" using assms by (auto simp: filter_empty_conv)
  with False show ?thesis by simp
qed

lemma apply_ranges_done: "\<not> i < length lines \<Longrightarrow> apply_ranges rs lines i acc = acc"
  by (subst apply_ranges.simps) (simp only: if_False)

lemma apply_ranges_keep:
  "i < length lines \<Longrightarrow> find (\<lambda>(s, e). s \<le> i \<and> i < e) rs = None \<Longrightarrow>
   apply_ranges rs lines i acc = apply_ranges rs lines (i + 1) (acc @ [lines ! i])"
  by (subst apply_ranges.simps) (simp only: if_True option.case)

lemma apply_ranges_skip:
  "i < length lines \<Longrightarrow> find (\<lambda>(s, e). s \<le> i \<and> i < e) rs = Some (s, e) \<Longrightarrow>
   apply_ranges rs lines i acc = apply_ranges rs lines e acc"
  by (subst apply_ranges.simps) (simp only: if_True option.case prod.case)

lemma apply_ranges_eq:
  "apply_ranges rs lines i acc =
     acc @ map (\<lambda>k. lines ! k) (filter (\<lambda>k. \<not> covered rs k) [i..<length lines])"
proof (induction rs lines i acc rule: apply_ranges.induct)
  case (1 rs lines i acc)
  show ?case
  proof (cases "i < length lines")
    case False
    then show ?thesis by (simp add: apply_ranges_done)
  next
    case True
    show ?thesis
    proof (cases "find (\<lambda>(s, e). s \<le> i \<and> i < e) rs")
      case None
      then have nc: "\<not> covered rs i" by (simp add: find_covered_None)
      have u: "[i..<length lines] = i # [i + 1..<length lines]" using True by (simp add: upt_conv_Cons)
      have "apply_ranges rs lines i acc = apply_ranges rs lines (i + 1) (acc @ [lines ! i])"
        using True None by (rule apply_ranges_keep)
      also have "\<dots> = (acc @ [lines ! i]) @
          map (\<lambda>k. lines ! k) (filter (\<lambda>k. \<not> covered rs k) [i + 1..<length lines])"
        by (rule 1(1)[OF True None])
      also have "\<dots> = acc @ map (\<lambda>k. lines ! k) (filter (\<lambda>k. \<not> covered rs k) [i..<length lines])"
        by (subst u) (simp add: nc del: upt_Suc)
      finally show ?thesis .
    next
      case (Some p)
      obtain s e where p: "p = (s, e)" by (cases p)
      from Some p have f: "find (\<lambda>(s, e). s \<le> i \<and> i < e) rs = Some (s, e)" by simp
      then have se: "s \<le> i" "i < e" by (auto simp: find_Some_iff)
      from find_covered_Some[OF f] se have "\<forall>k. i \<le> k \<and> k < e \<longrightarrow> covered rs k" by auto
      then have sk: "filter (\<lambda>k. \<not> covered rs k) [i..<length lines] = filter (\<lambda>k. \<not> covered rs k) [e..<length lines]"
        using se by (intro filter_upt_skip) auto
      have "apply_ranges rs lines i acc = apply_ranges rs lines e acc"
        using True f by (rule apply_ranges_skip)
      also have "\<dots> = acc @ map (\<lambda>k. lines ! k) (filter (\<lambda>k. \<not> covered rs k) [e..<length lines])"
        by (rule 1(2)[OF True f refl])
      finally show ?thesis by (simp only: sk)
    qed
  qed
qed

text \<open>
  Claim C1.  For every line sequence and every list of \<open>[start, end)\<close> intervals, the output
  of the pass is the sequence of the lines whose index no interval covers, in their
  original order and unchanged: the lines at the uncovered indices \<open>0, 1, \<dots>\<close> taken in
  increasing order, each once.  Nothing is assumed about the intervals, so this holds
  when they overlap, are nested, are empty or reach past the last line.
\<close>

theorem excise_retains_uncovered:
  "excise rs lines = map (\<lambda>k. lines ! k) (filter (\<lambda>k. \<not> covered rs k) [0..<length lines])"
  by (simp add: excise_def apply_ranges_eq covered_sort)

text \<open>Two overlapping intervals, discovered in the other order.\<close>

lemma excise_overlap_example:
  "excise [(2, 6), (1, 4)] [''a'', ''b'', ''c'', ''d'', ''e'', ''f'', ''g''] = [''a'', ''g'']"
  by code_simp

section \<open>Region Excision Engine: locating a region\<close>

lemma find_upt_Some:
  "find P [a..<b] = Some j \<longleftrightarrow> a \<le> j \<and> j < b \<and> P j \<and> (\<forall>k. a \<le> k \<and> k < j \<longrightarrow> \<not> P k)"
proof (induction "b - a" arbitrary: a)
  case 0
  then show ?case by auto
next
  case (Suc n)
  then have ab: "a < b" and n: "n = b - Suc a" by auto
  have u: "[a..<b] = a # [Suc a..<b]" using ab by (simp add: upt_conv_Cons)
  show ?case
  proof (cases "P a")
    case True
    then show ?thesis using ab by (subst u) (auto simp: not_less)
  next
    case False
    have "find P [a..<b] = find P [Suc a..<b]" using False by (subst u) simp
    also have "\<dots> = Some j \<longleftrightarrow> Suc a \<le> j \<and> j < b \<and> P j \<and> (\<forall>k. Suc a \<le> k \<and> k < j \<longrightarrow> \<not> P k)"
      using Suc(1)[OF n] .
    also have "\<dots> \<longleftrightarrow> a \<le> j \<and> j < b \<and> P j \<and> (\<forall>k. a \<le> k \<and> k < j \<longrightarrow> \<not> P k)"
      using False by (metis Suc_leD Suc_leI le_neq_implies_less)
    finally show ?thesis .
  qed
qed

lemma find_upt_None: "find P [a..<b] = None \<longleftrightarrow> (\<forall>k. a \<le> k \<and> k < b \<longrightarrow> \<not> P k)"
  by (auto simp: find_None_iff)

lemma find_start_Some:
  "find_start is_start lines = Some s \<longleftrightarrow>
     s < length lines \<and> is_start (lines ! s) \<and> (\<forall>i<s. \<not> is_start (lines ! i))"
  by (auto simp: find_start_def find_upt_Some)

lemma find_start_None:
  "find_start is_start lines = None \<longleftrightarrow> (\<forall>i<length lines. \<not> is_start (lines ! i))"
  by (auto simp: find_start_def find_upt_None)




lemma brace_balance_delta: "brace_balance lines i j = (\<Sum>k\<leftarrow>[i..<j + 1]. delta lines k)"
  by (simp add: brace_balance_def delta_def)

lemma brace_balance_first: "brace_balance lines i i = delta lines i"
  by (simp add: brace_balance_delta)

lemma brace_balance_step: "i \<le> j \<Longrightarrow> brace_balance lines i (Suc j) = brace_balance lines i j + delta lines (Suc j)"
  by (simp add: brace_balance_delta)

lemma brace_balance_shift:
  "a < k \<Longrightarrow> brace_balance lines a k = delta lines a + brace_balance lines (Suc a) k"
  by (simp add: brace_balance_delta upt_conv_Cons del: upt_Suc)

lemma brace_loop_Some:
  "i \<le> a \<Longrightarrow> brace_loop lines i [a..<n] c = Some j \<longleftrightarrow>
     a \<le> j \<and> j < n \<and> i < j \<and> c + brace_balance lines a j = 0 \<and>
     (\<forall>k. a \<le> k \<and> k < j \<and> i < k \<longrightarrow> c + brace_balance lines a k \<noteq> 0)"
proof (induction "n - a" arbitrary: a c)
  case 0
  then show ?case by auto
next
  case (Suc m)
  then have an: "a < n" and m: "m = n - Suc a" and ia: "i \<le> Suc a" by auto
  have u: "[a..<n] = a # [Suc a..<n]" using an by (simp add: upt_conv_Cons)
  let ?c = "c + delta lines a"
  show ?case
  proof (cases "?c = 0 \<and> i < a")
    case True
    have "brace_loop lines i [a..<n] c = Some a"
      using True by (subst u) (simp add: Let_def delta_def)
    moreover have "c + brace_balance lines a a = 0" using True by (simp add: brace_balance_first)
    ultimately show ?thesis using True an
      by (auto simp: brace_balance_first)
  next
    case False
    have "brace_loop lines i [a..<n] c = brace_loop lines i [Suc a..<n] ?c"
      using False by (subst u) (auto simp: Let_def delta_def)
    also have "\<dots> = Some j \<longleftrightarrow>
        Suc a \<le> j \<and> j < n \<and> i < j \<and> ?c + brace_balance lines (Suc a) j = 0 \<and>
        (\<forall>k. Suc a \<le> k \<and> k < j \<and> i < k \<longrightarrow> ?c + brace_balance lines (Suc a) k \<noteq> 0)"
      using Suc(1)[OF m ia] .
    also have "\<dots> \<longleftrightarrow> a \<le> j \<and> j < n \<and> i < j \<and> c + brace_balance lines a j = 0 \<and>
        (\<forall>k. a \<le> k \<and> k < j \<and> i < k \<longrightarrow> c + brace_balance lines a k \<noteq> 0)"
      (is "?L \<longleftrightarrow> ?R")
    proof
      assume L: ?L
      then have aj: "a < j" by auto
      have "c + brace_balance lines a j = 0"
        using L brace_balance_shift[OF aj, of lines] by linarith
      moreover have "c + brace_balance lines a k \<noteq> 0" if "a \<le> k" "k < j" "i < k" for k
      proof (cases "k = a")
        case True
        then show ?thesis using False that by (auto simp: brace_balance_first)
      next
        case False
        then have ak: "a < k" using that by auto
        then have "?c + brace_balance lines (Suc a) k \<noteq> 0" using L that by auto
        then show ?thesis using brace_balance_shift[OF ak, of lines] by linarith
      qed
      ultimately show ?R using L aj by auto
    next
      assume R: ?R
      have "j \<noteq> a" using R False by (auto simp: brace_balance_first)
      then have aj: "a < j" using R by auto
      have "?c + brace_balance lines (Suc a) j = 0"
        using R brace_balance_shift[OF aj, of lines] by linarith
      moreover have "?c + brace_balance lines (Suc a) k \<noteq> 0" if "Suc a \<le> k" "k < j" "i < k" for k
      proof -
        have ak: "a < k" using that by auto
        moreover have "c + brace_balance lines a k \<noteq> 0" using R that by auto
        ultimately show ?thesis using brace_balance_shift[OF ak, of lines] by linarith
      qed
      ultimately show ?L using R aj by auto
    qed
    finally show ?thesis .
  qed
qed

lemma handle_field_blur_Some:
  "handle_field_blur lines = Some (s, e) \<longleftrightarrow>
     find_start (\<lambda>l. strip l = ''const handleFieldBlur = async (fieldName, fieldValue) => {'') lines = Some s \<and>
     (\<exists>j. e = j + 1 \<and> s < j \<and> j < length lines \<and> brace_balance lines s j = 0 \<and>
          (\<forall>k. s < k \<and> k < j \<longrightarrow> brace_balance lines s k \<noteq> 0))"
proof -
  have "handle_field_blur lines = Some (s, e) \<longleftrightarrow>
     find_start (\<lambda>l. strip l = ''const handleFieldBlur = async (fieldName, fieldValue) => {'') lines = Some s \<and>
     (\<exists>j. e = j + 1 \<and> brace_loop lines s [s..<length lines] 0 = Some j)"
    by (auto simp: handle_field_blur_def split: option.splits)
  also have "\<dots> \<longleftrightarrow>
     find_start (\<lambda>l. strip l = ''const handleFieldBlur = async (fieldName, fieldValue) => {'') lines = Some s \<and>
     (\<exists>j. e = j + 1 \<and> s < j \<and> j < length lines \<and> brace_balance lines s j = 0 \<and>
          (\<forall>k. s < k \<and> k < j \<longrightarrow> brace_balance lines s k \<noteq> 0))"
    by (simp add: brace_loop_Some) (metis less_imp_le_nat)
  finally show ?thesis .
qed

section \<open>Region Excision Engine: the claims about locating regions\<close>






text \<open>
  Claim C2.  The handleFieldBlur region starts at the first line that, stripped, is the
  marker.  From that line on a counter adds the opening braces of each line and takes off
  its closing braces (\<open>brace_balance lines s j\<close> is its value after line \<open>j\<close>), and the
  region ends with the first line strictly after the start line at which the counter is
  zero.  So a closing brace of a nested pair, where the counter is still positive, does
  not end the region.
\<close>

theorem handle_field_blur_balanced:
  "handle_field_blur lines = Some (s, e) \<longleftrightarrow>
     s < length lines \<and>
     strip (lines ! s) = ''const handleFieldBlur = async (fieldName, fieldValue) => {'' \<and>
     (\<forall>i<s. strip (lines ! i) \<noteq> ''const handleFieldBlur = async (fieldName, fieldValue) => {'') \<and>
     (\<exists>j. e = j + 1 \<and> s < j \<and> j < length lines \<and> brace_balance lines s j = 0 \<and>
          (\<forall>k. s < k \<and> k < j \<longrightarrow> brace_balance lines s k \<noteq> 0))"
  by (simp only: handle_field_blur_Some find_start_Some conj_assoc)

theorem handle_field_blur_balanced_witness:
  "handle_field_blur nested_block = Some (0, 7) \<and>
   brace_balance nested_block 0 6 = 0 \<and>
   brace_balance nested_block 0 4 \<noteq> 0 \<and>
   brace_balance nested_block 0 5 \<noteq> 0"
proof -
  have L: "handle_field_blur nested_block = Some (0, 7)"
    unfolding nested_block_def by code_simp
  from L handle_field_blur_balanced[of nested_block 0 7]
  obtain j where j: "7 = j + 1" "brace_balance nested_block 0 j = 0"
    "\<forall>k. 0 < k \<and> k < j \<longrightarrow> brace_balance nested_block 0 k \<noteq> 0"
    by blast
  from j(1) have j6: "j = 6" by simp
  from j(2) have b6: "brace_balance nested_block 0 6 = 0" unfolding j6 .
  from j(3) have "brace_balance nested_block 0 4 \<noteq> 0" and "brace_balance nested_block 0 5 \<noteq> 0"
    unfolding j6 by simp_all
  with L b6 show ?thesis by blast
qed




text \<open>
  With the focus listener unterminated, the entry info region further down is still
  found and removed, and the other lines are written.
\<close>

lemma unterminated_region_others_applied:
  "focus_listener (split_nl unterminated_then_entry) = None \<and>
   entry_info_effect (split_nl unterminated_then_entry) = Some (2, 4) \<and>
   refactor_phase5 (Some unterminated_then_entry) =
     Inr (''  // Add focus listener to reload data when returning to screen'' @ [CHR 0x0A] @
          ''  const x = 1;'' @ [CHR 0x0A] @
          ''  const y = 2;'')"
  unfolding unterminated_then_entry_def by code_simp



text \<open>
  A block without the guard right after the marker: its closing line does not end the
  region, which runs on through the closing line of the block that has the guard.
\<close>

lemma guard_skips_unguarded_closing_line:
  "cleanup_effect unguarded_block_first = Some (0, 5)"
  unfolding unguarded_block_first_def by code_simp


section \<open>The matcher finds a match exactly when the pattern has one\<close>

lemma bt_sound:
  "bt r s c k = Some res \<Longrightarrow>
     \<exists>u v c'. s = u @ v \<and> u \<in> lang r \<and> k v c' = Some res \<and> (nogrp r \<longrightarrow> c' = c)"
proof (induction r s c k arbitrary: res rule: bt.induct)
  case (1 s c k)
  then show ?case by auto
next
  case (2 w s c k)
  then have "prefix w s" "k (drop (length w) s) c = Some res" by (auto split: if_splits)
  then show ?case by (auto simp: prefix_def)
next
  case (3 p c k)
  then show ?case by simp
next
  case (4 p x xs c k)
  then have "p x" "k xs c = Some res" by (auto split: if_splits)
  then have "x # xs = [x] @ xs \<and> [x] \<in> lang (Chr p) \<and> k xs c = Some res" by simp
  then show ?case by (metis (no_types))
next
  case (5 a b s c k)
  from 5(3) have "bt a s c (\<lambda>s' c'. bt b s' c' k) = Some res" by simp
  from 5(2)[OF this] obtain u v c' where
    a: "s = u @ v" "u \<in> lang a" "bt b v c' k = Some res" "nogrp a \<longrightarrow> c' = c" by blast
  from 5(1)[OF a(3)] obtain u' v' c'' where
    b: "v = u' @ v'" "u' \<in> lang b" "k v' c'' = Some res" "nogrp b \<longrightarrow> c'' = c'" by blast
  have "s = (u @ u') @ v'" using a b by simp
  moreover have "u @ u' \<in> lang (Cat a b)" using a b by auto
  moreover have "nogrp (Cat a b) \<longrightarrow> c'' = c" using a b by simp
  ultimately show ?case using b(3) by blast
next
  case (6 a b s c k)
  show ?case
  proof (cases "bt a s c k")
    case None
    with 6(3) have "bt b s c k = Some res" by simp
    from 6(2)[OF None this] show ?thesis by auto
  next
    case (Some r)
    with 6(3) have "bt a s c k = Some res" by simp
    from 6(1)[OF this] show ?thesis by auto
  qed
next
  case (7 n a s c k)
  from 7(2) have "bt a s c (\<lambda>s' c'. k s' (c'(n \<mapsto> take (length s - length s') s))) = Some res" by simp
  from 7(1)[OF this] show ?case by auto
next
  case (8 a s c k)
  show ?case
  proof (cases "bt a s c k")
    case None
    with 8(2) have "k s c = Some res" by simp
    then have "s = [] @ s \<and> [] \<in> lang (Opt a) \<and> k s c = Some res \<and> (nogrp (Opt a) \<longrightarrow> c = c)" by simp
    then show ?thesis by blast
  next
    case (Some r)
    with 8(2) have "bt a s c k = Some res" by simp
    from 8(1)[OF this] show ?thesis by auto
  qed
next
  case (9 p c k)
  then show ?case by auto
next
  case (10 p x xs c k)
  show ?case
  proof (cases "p x \<and> bt (StarG p) xs c k \<noteq> None")
    case True
    with 10(2) have "bt (StarG p) xs c k = Some res" by auto
    from 10(1)[OF _ this] True obtain u v c' where
      "xs = u @ v" "u \<in> lang (StarG p)" "k v c' = Some res" "c' = c" by auto
    then have "x # xs = (x # u) @ v \<and> x # u \<in> lang (StarG p) \<and> k v c = Some res" using True by auto
    then show ?thesis by (metis (no_types))
  next
    case False
    with 10(2) have "k (x # xs) c = Some res" by (auto split: if_splits option.splits)
    then have "x # xs = [] @ (x # xs) \<and> [] \<in> lang (StarG p) \<and> k (x # xs) c = Some res" by simp
    then show ?thesis by (metis (no_types))
  qed
next
  case (11 p c k)
  then show ?case by auto
next
  case (12 p x xs c k)
  show ?case
  proof (cases "k (x # xs) c")
    case (Some r)
    with 12(2) have "k (x # xs) c = Some res" by simp
    then have "x # xs = [] @ (x # xs) \<and> [] \<in> lang (StarL p) \<and> k (x # xs) c = Some res" by simp
    then show ?thesis by (metis (no_types))
  next
    case None
    with 12(2) have px: "p x" and "bt (StarL p) xs c k = Some res" by (auto split: if_splits)
    from 12(1)[OF None px this(2)] obtain u v c' where
      "xs = u @ v" "u \<in> lang (StarL p)" "k v c' = Some res" "c' = c" by auto
    then have "x # xs = (x # u) @ v \<and> x # u \<in> lang (StarL p) \<and> k v c = Some res" using px by auto
    then show ?thesis by (metis (no_types))
  qed
qed

lemma starG_complete: "(\<forall>x \<in> set u. p x) \<Longrightarrow> k v c \<noteq> None \<Longrightarrow> bt (StarG p) (u @ v) c k \<noteq> None"
proof (induction u)
  case Nil
  then show ?case by (cases v) (auto split: option.splits)
next
  case (Cons y u)
  then show ?case by (auto split: option.splits)
qed

lemma starL_complete: "(\<forall>x \<in> set u. p x) \<Longrightarrow> k v c \<noteq> None \<Longrightarrow> bt (StarL p) (u @ v) c k \<noteq> None"
proof (induction u)
  case Nil
  then show ?case by (cases v) (auto split: option.splits)
next
  case (Cons y u)
  then show ?case by (auto split: option.splits)
qed

lemma bt_complete:
  "u \<in> lang r \<Longrightarrow> (\<forall>c'. k v c' \<noteq> None) \<Longrightarrow> bt r (u @ v) c k \<noteq> None"
proof (induction r arbitrary: u v c k)
  case Eps
  then show ?case by simp
next
  case (Lit w)
  then show ?case by simp
next
  case (Chr p)
  then show ?case by auto
next
  case (Cat a b)
  from Cat(3) obtain u1 u2 where u: "u = u1 @ u2" "u1 \<in> lang a" "u2 \<in> lang b" by auto
  have "\<forall>c'. bt b (u2 @ v) c' k \<noteq> None" using Cat(2)[of u2 k v, OF u(3) Cat(4)] by simp
  from Cat(1)[OF u(2), of "\<lambda>s' c'. bt b s' c' k" "u2 @ v" c, OF this]
  show ?case using u by simp
next
  case (Alt a b)
  show ?case
  proof (cases "bt a (u @ v) c k")
    case (Some r)
    then show ?thesis by simp
  next
    case None
    with Alt(1)[of u k v c] Alt(4) have "u \<notin> lang a" by auto
    with Alt(3) have "u \<in> lang b" by simp
    from Alt(2)[of u k v c] this Alt(4) None show ?thesis by simp
  qed
next
  case (Grp n a)
  then have "u \<in> lang a" by simp
  from Grp(1)[OF this, of "\<lambda>s' c'. k s' (c'(n \<mapsto> take (length (u @ v) - length s') (u @ v)))" v c]
  show ?case using Grp(3) by simp
next
  case (Opt a)
  show ?case
  proof (cases "bt a (u @ v) c k")
    case (Some r)
    then show ?thesis by simp
  next
    case None
    with Opt(1)[of u k v c] Opt(3) have "u \<notin> lang a" by auto
    with Opt(2) have "u = []" by simp
    with None Opt(3) show ?thesis by simp
  qed
next
  case (StarG p)
  then show ?case using starG_complete[of u p k v c] by simp
next
  case (StarL p)
  then show ?case using starL_complete[of u p k v c] by simp
qed

lemma match_here_iff: "match_here r s \<noteq> None \<longleftrightarrow> (\<exists>u v. s = u @ v \<and> u \<in> lang r)"
proof
  assume "match_here r s \<noteq> None"
  then obtain res where "bt r s (\<lambda>n. None) (\<lambda>s' c. Some (s', c)) = Some res"
    by (auto simp: match_here_def)
  from bt_sound[OF this] show "\<exists>u v. s = u @ v \<and> u \<in> lang r" by blast
next
  assume "\<exists>u v. s = u @ v \<and> u \<in> lang r"
  then obtain u v where "s = u @ v" "u \<in> lang r" by blast
  then show "match_here r s \<noteq> None"
    using bt_complete[of u r "\<lambda>s' c. Some (s', c)" v "\<lambda>n. None"] by (simp add: match_here_def)
qed

lemma search_iff: "search r t \<longleftrightarrow> (\<exists>p u v. t = p @ u @ v \<and> u \<in> lang r)"
proof (induction t)
  case Nil
  show ?case using match_here_iff[of r "[]"] by auto
next
  case (Cons x xs)
  show ?case
  proof
    assume "search r (x # xs)"
    then consider "match_here r (x # xs) \<noteq> None" | "search r xs" by auto
    then show "\<exists>p u v. x # xs = p @ u @ v \<and> u \<in> lang r"
    proof cases
      case 1
      then obtain u v where "x # xs = u @ v" "u \<in> lang r"
        using match_here_iff[of r "x # xs"] by blast
      then have "x # xs = [] @ u @ v \<and> u \<in> lang r" by simp
      then show ?thesis by blast
    next
      case 2
      with Cons obtain p u v where "xs = p @ u @ v" "u \<in> lang r" by blast
      then have "x # xs = (x # p) @ u @ v \<and> u \<in> lang r" by simp
      then show ?thesis by blast
    qed
  next
    assume "\<exists>p u v. x # xs = p @ u @ v \<and> u \<in> lang r"
    then obtain p u v where puv: "x # xs = p @ u @ v" "u \<in> lang r" by blast
    show "search r (x # xs)"
    proof (cases p)
      case Nil
      with puv have "match_here r (x # xs) \<noteq> None"
        using match_here_iff[of r "x # xs"] by auto
      then show ?thesis by simp
    next
      case (Cons y p')
      with puv have "xs = p' @ u @ v" by simp
      with puv(2) Cons.IH have "search r xs" by blast
      then show ?thesis by simp
    qed
  qed
qed

lemma subn_unchanged: "snd (subn r f s) = 0 \<Longrightarrow> fst (subn r f s) = s"
  by (induction r f s rule: subn.induct) (auto split: option.splits prod.splits if_splits)

lemma subn_count_zero: "snd (subn r f s) = 0 \<longleftrightarrow> \<not> search r s"
  by (induction r f s rule: subn.induct) (auto split: option.splits prod.splits if_splits)

section \<open>Reference Rewriter: what a match of a pattern looks like\<close>






lemma lang_seq_Cons: "rs \<noteq> [] \<Longrightarrow> lang (seq (r # rs)) = {u @ v | u v. u \<in> lang r \<and> v \<in> lang (seq rs)}"
  by (cases rs) auto

lemma nogrp_seq: "(\<forall>r \<in> set rs. nogrp r) \<Longrightarrow> nogrp (seq rs)"
  by (induction rs rule: seq.induct) auto








section \<open>Reference Rewriter: the claims about one run and a second run\<close>




lemma apply_pattern_cases:
  "apply_pattern p st =
     (if search p (fst st) then (fst (subn p strip_suffix (fst st)), True) else st)"
proof -
  obtain nt n where s: "subn p strip_suffix (fst st) = (nt, n)" by (cases "subn p strip_suffix (fst st)")
  have "n = 0 \<longleftrightarrow> \<not> search p (fst st)" using subn_count_zero[of p strip_suffix "fst st"] s by simp
  then show ?thesis using s by (auto simp: apply_pattern_def)
qed


lemma apply_pattern_nomatch: "\<not> search p (fst st) \<Longrightarrow> apply_pattern p st = st"
  by (simp add: apply_pattern_cases)

lemma rewrite_text_unfold:
  "rewrite_text t =
     apply_pattern DYNAMIC_IMPORT_RE (apply_pattern REQUIRE_RE (apply_pattern EXPORT_RE
       (apply_pattern IMPORT_RE (t, False))))"
  by (simp add: rewrite_text_def)










section \<open>Reference Rewriter: the generic and the specific pattern\<close>

lemma lang_CatE:
  assumes "w \<in> lang (Cat a b)"
  obtains u v where "w = u @ v" "u \<in> lang a" "v \<in> lang b"
  using assms by auto

lemma lang_CatI: "u \<in> lang a \<Longrightarrow> v \<in> lang b \<Longrightarrow> u @ v \<in> lang (Cat a b)"
  by auto

lemma in_lang_four:
  "w \<in> lang (seq [Grp 1 A, Grp 2 B, Grp 3 C, Grp 4 D]) \<longleftrightarrow>
     (\<exists>a b c d. w = a @ b @ c @ d \<and> a \<in> lang A \<and> b \<in> lang B \<and> c \<in> lang C \<and> d \<in> lang D)"
proof
  assume "w \<in> lang (seq [Grp 1 A, Grp 2 B, Grp 3 C, Grp 4 D])"
  then have "w \<in> lang (Cat (Grp 1 A) (Cat (Grp 2 B) (Cat (Grp 3 C) (Grp 4 D))))" by simp
  then obtain a v1 where 1: "w = a @ v1" "a \<in> lang (Grp 1 A)" "v1 \<in> lang (Cat (Grp 2 B) (Cat (Grp 3 C) (Grp 4 D)))"
    by (rule lang_CatE)
  from 1(3) obtain b v2 where 2: "v1 = b @ v2" "b \<in> lang (Grp 2 B)" "v2 \<in> lang (Cat (Grp 3 C) (Grp 4 D))"
    by (rule lang_CatE)
  from 2(3) obtain c d where 3: "v2 = c @ d" "c \<in> lang (Grp 3 C)" "d \<in> lang (Grp 4 D)"
    by (rule lang_CatE)
  have "w = a @ b @ c @ d" using 1(1) 2(1) 3(1) by simp
  moreover have "a \<in> lang A" "b \<in> lang B" "c \<in> lang C" "d \<in> lang D"
    using 1(2) 2(2) 3(2,3) by simp_all
  ultimately show "\<exists>a b c d. w = a @ b @ c @ d \<and> a \<in> lang A \<and> b \<in> lang B \<and> c \<in> lang C \<and> d \<in> lang D"
    by blast
next
  assume "\<exists>a b c d. w = a @ b @ c @ d \<and> a \<in> lang A \<and> b \<in> lang B \<and> c \<in> lang C \<and> d \<in> lang D"
  then obtain a b c d where w: "w = a @ b @ c @ d" "a \<in> lang A" "b \<in> lang B" "c \<in> lang C" "d \<in> lang D"
    by blast
  have g: "a \<in> lang (Grp 1 A)" "b \<in> lang (Grp 2 B)" "c \<in> lang (Grp 3 C)" "d \<in> lang (Grp 4 D)"
    using w(2-5) by simp_all
  have "a @ b @ c @ d \<in> lang (Cat (Grp 1 A) (Cat (Grp 2 B) (Cat (Grp 3 C) (Grp 4 D))))"
    by (intro lang_CatI g)
  then show "w \<in> lang (seq [Grp 1 A, Grp 2 B, Grp 3 C, Grp 4 D])" using w(1) by simp
qed

lemma export_opening:
  assumes "a \<in> lang (seq [Lit ''import'', PlusG py_isspace, PlusL (not_chr CHR '';''), PlusG py_isspace,
                  Lit ''from'', PlusG py_isspace, Chr is_quote])"
  shows "\<exists>x a'. a = x @ a' \<and> a' \<in> lang (seq [Lit ''from'', PlusG py_isspace, Chr is_quote])"
proof -
  let ?R4 = "seq [Lit ''from'', PlusG py_isspace, Chr is_quote]"
  from assms have "a \<in> lang (Cat (Lit ''import'') (Cat (PlusG py_isspace)
      (Cat (PlusL (not_chr CHR '';'')) (Cat (PlusG py_isspace) ?R4))))" by simp
  then obtain u0 v0 where 0: "a = u0 @ v0"
    "v0 \<in> lang (Cat (PlusG py_isspace) (Cat (PlusL (not_chr CHR '';'')) (Cat (PlusG py_isspace) ?R4)))"
    by (rule lang_CatE)
  from 0(2) obtain u1 v1 where 1: "v0 = u1 @ v1"
    "v1 \<in> lang (Cat (PlusL (not_chr CHR '';'')) (Cat (PlusG py_isspace) ?R4))"
    by (rule lang_CatE)
  from 1(2) obtain u2 v2 where 2: "v1 = u2 @ v2" "v2 \<in> lang (Cat (PlusG py_isspace) ?R4)"
    by (rule lang_CatE)
  from 2(2) obtain u3 a' where 3: "v2 = u3 @ a'" "a' \<in> lang ?R4"
    by (rule lang_CatE)
  have "a = (u0 @ u1 @ u2 @ u3) @ a'" using 0(1) 1(1) 2(1) 3(1) by simp
  with 3(2) show ?thesis by blast
qed

lemma export_has_import:
  assumes "w \<in> lang EXPORT_RE"
  shows "\<exists>x w'. w = x @ w' \<and> w' \<in> lang IMPORT_RE"
proof -
  from assms obtain a b c d where
    w: "w = a @ b @ c @ d"
    and a: "a \<in> lang (seq [Lit ''import'', PlusG py_isspace, PlusL (not_chr CHR '';''), PlusG py_isspace,
                  Lit ''from'', PlusG py_isspace, Chr is_quote])"
    and bcd: "b \<in> lang (PlusL path_chr)" "c \<in> lang (Lit ''.js'')" "d \<in> lang (Chr is_quote)"
    unfolding EXPORT_RE_def in_lang_four by blast
  from export_opening[OF a] obtain x a' where
    x: "a = x @ a'" "a' \<in> lang (seq [Lit ''from'', PlusG py_isspace, Chr is_quote])" by blast
  have "a' @ b @ c @ d \<in> lang IMPORT_RE"
    unfolding IMPORT_RE_def in_lang_four using x(2) bcd by blast
  moreover have "w = x @ (a' @ b @ c @ d)" using w x(1) by simp
  ultimately show ?thesis by blast
qed

lemma export_implies_import: "search EXPORT_RE u \<Longrightarrow> search IMPORT_RE u"
proof -
  assume "search EXPORT_RE u"
  then obtain p w v where u: "u = p @ w @ v" "w \<in> lang EXPORT_RE" unfolding search_iff by blast
  from export_has_import[OF u(2)] obtain x w' where "w = x @ w'" "w' \<in> lang IMPORT_RE" by blast
  with u(1) have "u = (p @ x) @ w' @ v \<and> w' \<in> lang IMPORT_RE" by simp
  then show "search IMPORT_RE u" unfolding search_iff by blast
qed

lemma fst_apply_pattern: "fst (apply_pattern p (t, b)) = fst (subn p strip_suffix t)"
proof (cases "search p t")
  case True
  then show ?thesis by (simp add: apply_pattern_cases)
next
  case False
  then have "snd (subn p strip_suffix t) = 0" by (simp add: subn_count_zero)
  from subn_unchanged[OF this] False show ?thesis by (simp add: apply_pattern_cases)
qed

text \<open>
  Claim C10, as the code has it.  A text the specific pattern (\<open>import \<dots> from '<path>'\<close>)
  matches ends with a text the generic pattern (\<open>from '<path>'\<close>) matches, so wherever the
  specific pattern finds a match the generic one finds one too.  Hence, when the generic
  pattern finds nothing in the text its own pass produced, the specific pattern makes no
  substitution in it, and the four patterns in order do what the generic, the require and
  the dynamic-import pattern do.
\<close>

theorem specific_pattern_after_generic:
  "(search EXPORT_RE u \<longrightarrow> search IMPORT_RE u) \<and>
   (\<not> search IMPORT_RE (fst (subn IMPORT_RE strip_suffix t)) \<longrightarrow>
      subn EXPORT_RE strip_suffix (fst (subn IMPORT_RE strip_suffix t)) =
        (fst (subn IMPORT_RE strip_suffix t), 0) \<and>
      rewrite_text t = fold apply_pattern [IMPORT_RE, REQUIRE_RE, DYNAMIC_IMPORT_RE] (t, False))"
proof (intro conjI impI)
  assume "search EXPORT_RE u"
  then show "search IMPORT_RE u" by (rule export_implies_import)
next
  let ?t1 = "fst (subn IMPORT_RE strip_suffix t)"
  assume n: "\<not> search IMPORT_RE ?t1"
  then have ne: "\<not> search EXPORT_RE ?t1" using export_implies_import by blast
  then have z: "snd (subn EXPORT_RE strip_suffix ?t1) = 0" by (simp add: subn_count_zero)
  from subn_unchanged[OF z] z
  show "subn EXPORT_RE strip_suffix ?t1 = (?t1, 0)" by (simp add: prod_eq_iff)
  have "apply_pattern EXPORT_RE (apply_pattern IMPORT_RE (t, False)) = apply_pattern IMPORT_RE (t, False)"
    using ne by (intro apply_pattern_nomatch) (simp add: fst_apply_pattern)
  then show "rewrite_text t = fold apply_pattern [IMPORT_RE, REQUIRE_RE, DYNAMIC_IMPORT_RE] (t, False)"
    by (simp add: rewrite_text_unfold)
qed

theorem specific_pattern_after_generic_witness:
  "\<not> search IMPORT_RE (fst (subn IMPORT_RE strip_suffix import_a)) \<and>
   subn EXPORT_RE strip_suffix (fst (subn IMPORT_RE strip_suffix import_a)) =
     (''import x from '' @ sq @ ''./a'' @ sq, 0) \<and>
   rewrite_text import_a = fold apply_pattern [IMPORT_RE, REQUIRE_RE, DYNAMIC_IMPORT_RE] (import_a, False)"
proof -
  have n: "\<not> search IMPORT_RE (fst (subn IMPORT_RE strip_suffix import_a))"
    unfolding import_a_def by code_simp
  have f: "fst (subn IMPORT_RE strip_suffix import_a) = ''import x from '' @ sq @ ''./a'' @ sq"
    unfolding import_a_def by code_simp
  from mp[OF conjunct2[OF specific_pattern_after_generic[of "[]" import_a]] n]
  have "subn EXPORT_RE strip_suffix (fst (subn IMPORT_RE strip_suffix import_a)) =
        (fst (subn IMPORT_RE strip_suffix import_a), 0)"
    and r: "rewrite_text import_a = fold apply_pattern [IMPORT_RE, REQUIRE_RE, DYNAMIC_IMPORT_RE] (import_a, False)"
    by (rule conjunct1, rule conjunct2)
  then have "subn EXPORT_RE strip_suffix (fst (subn IMPORT_RE strip_suffix import_a)) =
     (''import x from '' @ sq @ ''./a'' @ sq, 0)"
    by (simp only: f)
  with n r show ?thesis by (intro conjI)
qed

text \<open>
  The claim as stated has no condition.  The generic pass turns \<open>import x from './a.js.js'\<close>
  into \<open>import x from './a.js'\<close>, where the specific pattern then makes one substitution;
  the four patterns end with \<open>'./a'\<close>, the three with \<open>'./a.js'\<close>.
\<close>

theorem specific_pattern_rewrites_again:
  "subn EXPORT_RE strip_suffix (fst (subn IMPORT_RE strip_suffix import_a_twice)) =
     (''import x from '' @ sq @ ''./a'' @ sq, 1) \<and>
   rewrite_text import_a_twice = (''import x from '' @ sq @ ''./a'' @ sq, True) \<and>
   fold apply_pattern [IMPORT_RE, REQUIRE_RE, DYNAMIC_IMPORT_RE] (import_a_twice, False) =
     (''import x from '' @ sq @ ''./a.js'' @ sq, True)"
  unfolding import_a_twice_def by code_simp

section \<open>Classifier: the extension a file gets\<close>

lemma tag_head:
  assumes "w \<in> lang (Cat (Lit l) (Cat (StarG py_isspace) (Cat (Chr is_alpha) (Cat (StarG is_alnum) R))))"
  obtains ws a n t where "w = l @ ws @ a # n @ t" "\<forall>x \<in> set ws. py_isspace x" "is_alpha a"
    "\<forall>x \<in> set n. is_alnum x" "t \<in> lang R"
proof -
  from assms obtain u0 v0 where 0: "w = u0 @ v0" "u0 \<in> lang (Lit l)"
    "v0 \<in> lang (Cat (StarG py_isspace) (Cat (Chr is_alpha) (Cat (StarG is_alnum) R)))"
    by (rule lang_CatE)
  from 0(3) obtain ws v1 where 1: "v0 = ws @ v1" "ws \<in> lang (StarG py_isspace)"
    "v1 \<in> lang (Cat (Chr is_alpha) (Cat (StarG is_alnum) R))"
    by (rule lang_CatE)
  from 1(3) obtain u2 v2 where 2: "v1 = u2 @ v2" "u2 \<in> lang (Chr is_alpha)"
    "v2 \<in> lang (Cat (StarG is_alnum) R)"
    by (rule lang_CatE)
  from 2(3) obtain n t where 3: "v2 = n @ t" "n \<in> lang (StarG is_alnum)" "t \<in> lang R"
    by (rule lang_CatE)
  from 2(2) obtain a where a: "u2 = [a]" "is_alpha a" by auto
  have "w = l @ ws @ a # n @ t" using 0(1,2) 1(1) 2(1) 3(1) a(1) by simp
  moreover have "\<forall>x \<in> set ws. py_isspace x" using 1(2) by simp
  moreover have "\<forall>x \<in> set n. is_alnum x" using 3(2) by simp
  ultimately show ?thesis using a(2) 3(3) that by blast
qed

lemma tag_headI:
  assumes "\<forall>x \<in> set ws. py_isspace x" "is_alpha a" "\<forall>x \<in> set n. is_alnum x" "t \<in> lang R"
  shows "l @ ws @ a # n @ t \<in> lang (Cat (Lit l) (Cat (StarG py_isspace) (Cat (Chr is_alpha) (Cat (StarG is_alnum) R))))"
proof -
  have "l \<in> lang (Lit l)" "ws \<in> lang (StarG py_isspace)" "[a] \<in> lang (Chr is_alpha)"
    "n \<in> lang (StarG is_alnum)"
    using assms by simp_all
  from lang_CatI[OF this(1) lang_CatI[OF this(2) lang_CatI[OF this(3) lang_CatI[OF this(4) assms(4)]]]]
  show ?thesis by simp
qed

lemma lang_closing:
  "w \<in> lang (JSX_SNIPPETS ! 0) \<longleftrightarrow> closing_tag w"
proof -
  let ?R = "Grp 1 (Alt (Chr py_isspace) (Lit ''>''))"
  have J: "JSX_SNIPPETS ! 0 =
      Cat (Lit ''</'') (Cat (StarG py_isspace) (Cat (Chr is_alpha) (Cat (StarG is_alnum) ?R)))"
    by (simp add: JSX_SNIPPETS_def)
  have R: "t \<in> lang ?R \<longleftrightarrow> (\<exists>e. t = [e] \<and> (py_isspace e \<or> e = CHR ''>''))" for t
    by auto
  show ?thesis
  proof
    assume "w \<in> lang (JSX_SNIPPETS ! 0)"
    then obtain ws a n t where h: "w = ''</'' @ ws @ a # n @ t" "\<forall>x \<in> set ws. py_isspace x" "is_alpha a"
      "\<forall>x \<in> set n. is_alnum x" "t \<in> lang ?R"
      unfolding J by (rule tag_head)
    from h(5) obtain e where "t = [e]" "py_isspace e \<or> e = CHR ''>''" unfolding R by blast
    with h show "closing_tag w" unfolding closing_tag_def by blast
  next
    assume "closing_tag w"
    then obtain ws a n e where h: "w = ''</'' @ ws @ a # n @ [e]"
      "\<forall>x \<in> set ws. py_isspace x" "is_alpha a" "\<forall>x \<in> set n. is_alnum x"
      "py_isspace e \<or> e = CHR ''>''"
      unfolding closing_tag_def by blast
    have "[e] \<in> lang ?R" using h(5) unfolding R by blast
    from tag_headI[OF h(2,3,4) this, of "''</''"] show "w \<in> lang (JSX_SNIPPETS ! 0)"
      unfolding J h(1) .
  qed
qed

lemma lang_self_closing:
  "w \<in> lang (JSX_SNIPPETS ! 1) \<longleftrightarrow> self_closing_tag w"
proof -
  let ?O = "Opt (Grp 1 (seq [Chr py_isspace, StarL (not_chr CHR ''>'')]))"
  let ?R = "Cat ?O (Lit ''/>'')"
  have J: "JSX_SNIPPETS ! 1 =
      Cat (Lit ''<'') (Cat (StarG py_isspace) (Cat (Chr is_alpha) (Cat (StarG is_alnum) ?R)))"
    by (simp add: JSX_SNIPPETS_def)
  have O: "t \<in> lang ?O \<longleftrightarrow>
      (t = [] \<or> (\<exists>sp r. t = sp # r \<and> py_isspace sp \<and> (\<forall>x \<in> set r. x \<noteq> CHR ''>'')))" for t
  proof
    assume "t \<in> lang ?O"
    then have "t = [] \<or> t \<in> lang (Cat (Chr py_isspace) (StarL (not_chr CHR ''>'')))" by simp
    then show "t = [] \<or> (\<exists>sp r. t = sp # r \<and> py_isspace sp \<and> (\<forall>x \<in> set r. x \<noteq> CHR ''>''))"
    proof
      assume "t = []"
      then show ?thesis by simp
    next
      assume "t \<in> lang (Cat (Chr py_isspace) (StarL (not_chr CHR ''>'')))"
      then obtain u r where 1: "t = u @ r" "u \<in> lang (Chr py_isspace)" "r \<in> lang (StarL (not_chr CHR ''>''))"
        by (rule lang_CatE)
      from 1(2) obtain sp where "u = [sp]" "py_isspace sp" by auto
      moreover have "\<forall>x \<in> set r. x \<noteq> CHR ''>''" using 1(3) by (simp add: not_chr_def)
      ultimately have "t = sp # r \<and> py_isspace sp \<and> (\<forall>x \<in> set r. x \<noteq> CHR ''>'')" using 1(1) by simp
      then show ?thesis by blast
    qed
  next
    assume "t = [] \<or> (\<exists>sp r. t = sp # r \<and> py_isspace sp \<and> (\<forall>x \<in> set r. x \<noteq> CHR ''>''))"
    then show "t \<in> lang ?O"
    proof
      assume "t = []"
      then show ?thesis by simp
    next
      assume "\<exists>sp r. t = sp # r \<and> py_isspace sp \<and> (\<forall>x \<in> set r. x \<noteq> CHR ''>'')"
      then obtain sp r where t: "t = sp # r" "py_isspace sp" "\<forall>x \<in> set r. x \<noteq> CHR ''>''" by blast
      have "[sp] \<in> lang (Chr py_isspace)" "r \<in> lang (StarL (not_chr CHR ''>''))"
        using t(2,3) by (simp_all add: not_chr_def)
      from lang_CatI[OF this] have "t \<in> lang (Cat (Chr py_isspace) (StarL (not_chr CHR ''>'')))"
        unfolding t(1) by simp
      then show ?thesis by simp
    qed
  qed
  have R: "t \<in> lang ?R \<longleftrightarrow>
      (\<exists>attrs. t = attrs @ ''/>'' \<and>
         (attrs = [] \<or> (\<exists>sp r. attrs = sp # r \<and> py_isspace sp \<and> (\<forall>x \<in> set r. x \<noteq> CHR ''>''))))" for t
  proof
    assume "t \<in> lang ?R"
    then obtain u v where uv: "t = u @ v" "u \<in> lang ?O" "v \<in> lang (Lit ''/>'')" by (rule lang_CatE)
    from uv(3) have "v = ''/>''" by simp
    with uv(1) have tu: "t = u @ ''/>''" by simp
    from uv(2) have d: "u = [] \<or> (\<exists>sp r. u = sp # r \<and> py_isspace sp \<and> (\<forall>x \<in> set r. x \<noteq> CHR ''>''))"
      unfolding O .
    show "\<exists>attrs. t = attrs @ ''/>'' \<and>
         (attrs = [] \<or> (\<exists>sp r. attrs = sp # r \<and> py_isspace sp \<and> (\<forall>x \<in> set r. x \<noteq> CHR ''>'')))"
      by (rule exI[of _ u]) (rule conjI[OF tu d])
  next
    assume "\<exists>attrs. t = attrs @ ''/>'' \<and>
         (attrs = [] \<or> (\<exists>sp r. attrs = sp # r \<and> py_isspace sp \<and> (\<forall>x \<in> set r. x \<noteq> CHR ''>'')))"
    then obtain attrs where t: "t = attrs @ ''/>''"
      and a: "attrs = [] \<or> (\<exists>sp r. attrs = sp # r \<and> py_isspace sp \<and> (\<forall>x \<in> set r. x \<noteq> CHR ''>''))"
      by (elim exE conjE)
    from a have ao: "attrs \<in> lang ?O" unfolding O .
    have l: "''/>'' \<in> lang (Lit ''/>'')" by simp
    show "t \<in> lang ?R" unfolding t by (rule lang_CatI[OF ao l])
  qed
  show ?thesis
  proof
    assume "w \<in> lang (JSX_SNIPPETS ! 1)"
    then obtain ws a n t where h: "w = ''<'' @ ws @ a # n @ t" "\<forall>x \<in> set ws. py_isspace x" "is_alpha a"
      "\<forall>x \<in> set n. is_alnum x" "t \<in> lang ?R"
      unfolding J by (rule tag_head)
    from h(5) obtain attrs where at: "t = attrs @ ''/>''"
      "attrs = [] \<or> (\<exists>sp r. attrs = sp # r \<and> py_isspace sp \<and> (\<forall>x \<in> set r. x \<noteq> CHR ''>''))"
      unfolding R by (elim exE conjE)
    have w: "w = ''<'' @ ws @ a # n @ attrs @ ''/>''" using h(1) at(1) by simp
    show "self_closing_tag w" unfolding self_closing_tag_def
      by (rule exI[of _ ws], rule exI[of _ a], rule exI[of _ n], rule exI[of _ attrs])
         (intro conjI w h(2) h(3) h(4) at(2))
  next
    assume "self_closing_tag w"
    then obtain ws a n attrs where h: "w = ''<'' @ ws @ a # n @ attrs @ ''/>''"
      "\<forall>x \<in> set ws. py_isspace x" "is_alpha a" "\<forall>x \<in> set n. is_alnum x"
      "attrs = [] \<or> (\<exists>sp r. attrs = sp # r \<and> py_isspace sp \<and> (\<forall>x \<in> set r. x \<noteq> CHR ''>''))"
      unfolding self_closing_tag_def by (elim exE conjE)
    have "attrs @ ''/>'' \<in> lang ?R" unfolding R
      by (rule exI[of _ attrs], rule conjI[OF refl h(5)])
    from tag_headI[OF h(2,3,4) this, of "''<''"] show "w \<in> lang (JSX_SNIPPETS ! 1)"
      unfolding J h(1) .
  qed
qed

lemma lang_opening:
  "w \<in> lang (JSX_SNIPPETS ! 2) \<longleftrightarrow> opening_tag w"
proof -
  let ?R = "Cat (Chr py_isspace) (Cat (StarG (not_chr CHR ''>'')) (Lit ''>''))"
  have J: "JSX_SNIPPETS ! 2 =
      Cat (Lit ''<'') (Cat (StarG py_isspace) (Cat (Chr is_alpha) (Cat (StarG is_alnum) ?R)))"
    by (simp add: JSX_SNIPPETS_def)
  have R: "t \<in> lang ?R \<longleftrightarrow>
      (\<exists>sp r. t = sp # r @ ''>'' \<and> py_isspace sp \<and> (\<forall>x \<in> set r. x \<noteq> CHR ''>''))" for t
  proof
    assume "t \<in> lang ?R"
    then obtain u v where 1: "t = u @ v" "u \<in> lang (Chr py_isspace)"
      "v \<in> lang (Cat (StarG (not_chr CHR ''>'')) (Lit ''>''))" by (rule lang_CatE)
    from 1(3) obtain r z where 2: "v = r @ z" "r \<in> lang (StarG (not_chr CHR ''>''))" "z \<in> lang (Lit ''>'')"
      by (rule lang_CatE)
    from 1(2) obtain sp where sp: "u = [sp]" "py_isspace sp" by auto
    have r: "\<forall>x \<in> set r. x \<noteq> CHR ''>''" using 2(2) by (simp add: not_chr_def)
    have z: "z = ''>''" using 2(3) by simp
    have t: "t = sp # r @ ''>''" using 1(1) 2(1) sp(1) z by simp
    show "\<exists>sp r. t = sp # r @ ''>'' \<and> py_isspace sp \<and> (\<forall>x \<in> set r. x \<noteq> CHR ''>'')"
      by (rule exI[of _ sp], rule exI[of _ r]) (intro conjI t sp(2) r)
  next
    assume "\<exists>sp r. t = sp # r @ ''>'' \<and> py_isspace sp \<and> (\<forall>x \<in> set r. x \<noteq> CHR ''>'')"
    then obtain sp r where t: "t = sp # r @ ''>''" "py_isspace sp" "\<forall>x \<in> set r. x \<noteq> CHR ''>''"
      by (elim exE conjE)
    have "[sp] \<in> lang (Chr py_isspace)" "r \<in> lang (StarG (not_chr CHR ''>''))" "''>'' \<in> lang (Lit ''>'')"
      using t(2,3) by (simp_all add: not_chr_def)
    from lang_CatI[OF this(1) lang_CatI[OF this(2,3)]] show "t \<in> lang ?R" unfolding t(1) by simp
  qed
  show ?thesis
  proof
    assume "w \<in> lang (JSX_SNIPPETS ! 2)"
    then obtain ws a n t where h: "w = ''<'' @ ws @ a # n @ t" "\<forall>x \<in> set ws. py_isspace x" "is_alpha a"
      "\<forall>x \<in> set n. is_alnum x" "t \<in> lang ?R"
      unfolding J by (rule tag_head)
    from h(5) obtain sp r where t: "t = sp # r @ ''>''" "py_isspace sp" "\<forall>x \<in> set r. x \<noteq> CHR ''>''"
      unfolding R by (elim exE conjE)
    have w: "w = ''<'' @ ws @ a # n @ sp # r @ ''>''" using h(1) t(1) by simp
    show "opening_tag w" unfolding opening_tag_def
      by (rule exI[of _ ws], rule exI[of _ a], rule exI[of _ n], rule exI[of _ sp], rule exI[of _ r])
         (intro conjI w h(2) h(3) h(4) t(2) t(3))
  next
    assume "opening_tag w"
    then obtain ws a n sp r where h: "w = ''<'' @ ws @ a # n @ sp # r @ ''>''"
      "\<forall>x \<in> set ws. py_isspace x" "is_alpha a" "\<forall>x \<in> set n. is_alnum x"
      "py_isspace sp" "\<forall>x \<in> set r. x \<noteq> CHR ''>''"
      unfolding opening_tag_def by (elim exE conjE)
    have "sp # r @ ''>'' \<in> lang ?R" unfolding R
      by (rule exI[of _ sp], rule exI[of _ r]) (intro conjI refl h(5) h(6))
    from tag_headI[OF h(2,3,4) this, of "''<''"] show "w \<in> lang (JSX_SNIPPETS ! 2)"
      unfolding J h(1) .
  qed
qed

lemma contains_jsx_iff:
  "contains_jsx text \<longleftrightarrow>
     (\<exists>p u v. text = p @ u @ v \<and> (closing_tag u \<or> self_closing_tag u \<or> opening_tag u))"
proof -
  have "contains_jsx text \<longleftrightarrow>
      search (JSX_SNIPPETS ! 0) text \<or> search (JSX_SNIPPETS ! 1) text \<or> search (JSX_SNIPPETS ! 2) text"
    by (simp add: contains_jsx_def JSX_SNIPPETS_def)
  then show ?thesis unfolding search_iff lang_closing lang_self_closing lang_opening by blast
qed

lemma tag_has_lt:
  assumes "closing_tag u \<or> self_closing_tag u \<or> opening_tag u"
  shows "CHR ''<'' \<in> set u"
  using assms unfolding closing_tag_def self_closing_tag_def opening_tag_def by auto


lemma should_force_tsx_iff:
  "should_force_tsx path \<longleftrightarrow> (\<exists>seg \<in> set path. seg \<in> {''components'', ''screens'', ''templates''})"
  unfolding should_force_tsx_def FORCE_TSX_SEGMENTS_def by blast

lemma no_lt_no_jsx: "CHR ''<'' \<notin> set text \<Longrightarrow> \<not> contains_jsx text"
proof
  assume n: "CHR ''<'' \<notin> set text" and "contains_jsx text"
  then obtain p u v where "text = p @ u @ v" "closing_tag u \<or> self_closing_tag u \<or> opening_tag u"
    unfolding contains_jsx_iff by blast
  with tag_has_lt[of u] have "CHR ''<'' \<in> set text" by simp
  with n show False by simp
qed

text \<open>
  Claim C7, as the code has it.  A file gets \<open>.tsx\<close> exactly when one of its path segments
  is \<open>components\<close>, \<open>screens\<close> or \<open>templates\<close>, or its content has a part that is a closing
  tag, a self-closing tag or an opening tag in the sense of the three patterns; otherwise
  it gets \<open>.ts\<close>.  Outside those directories a content without \<open><\<close> gets \<open>.ts\<close>, and so do
  the contents \<open>a < b\<close> and \<open>Map<string>\<close>.
\<close>

theorem target_extension_classifies:
  "target_extension path text =
     (if (\<exists>seg \<in> set path. seg \<in> {''components'', ''screens'', ''templates''}) \<or>
         (\<exists>p u v. text = p @ u @ v \<and> (closing_tag u \<or> self_closing_tag u \<or> opening_tag u))
      then ''.tsx'' else ''.ts'') \<and>
   (\<not> (\<exists>seg \<in> set path. seg \<in> {''components'', ''screens'', ''templates''}) \<and> CHR ''<'' \<notin> set text
      \<longrightarrow> target_extension path text = ''.ts'') \<and>
   (\<not> (\<exists>seg \<in> set path. seg \<in> {''components'', ''screens'', ''templates''})
      \<longrightarrow> target_extension path ''a < b'' = ''.ts'' \<and> target_extension path ''Map<string>'' = ''.ts'')"
proof (intro conjI impI)
  show "target_extension path text =
     (if (\<exists>seg \<in> set path. seg \<in> {''components'', ''screens'', ''templates''}) \<or>
         (\<exists>p u v. text = p @ u @ v \<and> (closing_tag u \<or> self_closing_tag u \<or> opening_tag u))
      then ''.tsx'' else ''.ts'')"
    unfolding target_extension_def should_force_tsx_iff contains_jsx_iff by simp
next
  assume "\<not> (\<exists>seg \<in> set path. seg \<in> {''components'', ''screens'', ''templates''}) \<and> CHR ''<'' \<notin> set text"
  then have "\<not> should_force_tsx path" "\<not> contains_jsx text"
    unfolding should_force_tsx_iff using no_lt_no_jsx by blast+
  then show "target_extension path text = ''.ts''" by (simp add: target_extension_def)
next
  assume "\<not> (\<exists>seg \<in> set path. seg \<in> {''components'', ''screens'', ''templates''})"
  then have f: "\<not> should_force_tsx path" unfolding should_force_tsx_iff .
  have "\<not> contains_jsx ''a < b''" by code_simp
  with f show "target_extension path ''a < b'' = ''.ts''" by (simp add: target_extension_def)
  have "\<not> contains_jsx ''Map<string>''" by code_simp
  with f show "target_extension path ''Map<string>'' = ''.ts''" by (simp add: target_extension_def)
qed

theorem target_extension_classifies_witness:
  "target_extension [''utils'', ''format.js''] ''export const a = 1;'' = ''.ts'' \<and>
   target_extension [''utils'', ''format.js''] ''a < b'' = ''.ts'' \<and>
   target_extension [''utils'', ''format.js''] ''Map<string>'' = ''.ts'' \<and>
   target_extension [''screens'', ''Home.js''] ''export const a = 1;'' = ''.tsx''"
proof -
  define util where "util = [''utils'', ''format.js'']"
  define home where "home = [''screens'', ''Home.js'']"
  define plain where "plain = ''export const a = 1;''"
  have u: "\<not> (\<exists>seg \<in> set util. seg \<in> {''components'', ''screens'', ''templates''})"
    unfolding util_def by simp
  have h: "\<exists>seg \<in> set home. seg \<in> {''components'', ''screens'', ''templates''}"
    unfolding home_def by simp
  have n: "CHR ''<'' \<notin> set plain" unfolding plain_def by simp
  note T = target_extension_classifies[of util plain]
  have 1: "target_extension util plain = ''.ts''"
    by (rule mp[OF conjunct1[OF conjunct2[OF T]] conjI[OF u n]])
  have 23: "target_extension util ''a < b'' = ''.ts'' \<and> target_extension util ''Map<string>'' = ''.ts''"
    by (rule mp[OF conjunct2[OF conjunct2[OF T]] u])
  have 4: "target_extension home plain = ''.tsx''"
    using conjunct1[OF target_extension_classifies[of home plain]] h by simp
  from 1 23 4 show ?thesis unfolding util_def home_def plain_def by simp
qed

text \<open>
  The claim as stated promises \<open>.ts\<close> for every content whose only angle brackets are
  comparisons and generics.  For the third pattern a \<open><\<close>, a name, whitespace and any later
  \<open>>\<close> make an opening tag: in \<open>x = a < b ; y = new Map<string>()\<close> it matches from the
  comparison to the end of the generic, and the file gets \<open>.tsx\<close>.
\<close>

theorem comparison_is_read_as_tag:
  "\<not> should_force_tsx [''utils'', ''format.js''] \<and>
   target_extension [''utils'', ''format.js''] comparison_and_generic = ''.tsx''"
  unfolding comparison_and_generic_def by code_simp

section \<open>Classifier and Renamer: the banner and the collision policy\<close>

lemma lstrip_banner: "lstrip (TS_NOCHECK_BANNER @ text) = TS_NOCHECK_BANNER @ text"
  by (simp add: lstrip_def TS_NOCHECK_BANNER_def py_isspace_def)

lemma startswith_banner: "startswith (TS_NOCHECK_BANNER @ text) ''// @ts-nocheck''"
  by (simp add: startswith_def TS_NOCHECK_BANNER_def)

text \<open>
  Claim C9.  Applying the banner step twice gives what applying it once gives.  When the
  content, after leading whitespace, starts with \<open>// @ts-nocheck\<close> or \<open>/* @ts-nocheck\<close>,
  the step returns it unchanged; otherwise it puts the fixed banner in front, and the
  result is a fixed point of the step.
\<close>

theorem ensure_banner_idempotent:
  "ensure_banner (ensure_banner text) = ensure_banner text \<and>
   (startswith (lstrip text) ''// @ts-nocheck'' \<or> startswith (lstrip text) ''/* @ts-nocheck''
      \<longrightarrow> ensure_banner text = text) \<and>
   (\<not> (startswith (lstrip text) ''// @ts-nocheck'' \<or> startswith (lstrip text) ''/* @ts-nocheck'')
      \<longrightarrow> ensure_banner text = TS_NOCHECK_BANNER @ text)"
proof (cases "startswith (lstrip text) ''// @ts-nocheck'' \<or> startswith (lstrip text) ''/* @ts-nocheck''")
  case True
  then have "ensure_banner text = text" by (simp add: ensure_banner_def Let_def)
  with True show ?thesis by simp
next
  case False
  then have e: "ensure_banner text = TS_NOCHECK_BANNER @ text" by (simp add: ensure_banner_def Let_def)
  have "ensure_banner (TS_NOCHECK_BANNER @ text) = TS_NOCHECK_BANNER @ text"
    unfolding ensure_banner_def Let_def lstrip_banner using startswith_banner by simp
  with e False show ?thesis by simp
qed

theorem ensure_banner_idempotent_witness:
  "ensure_banner ''const a = 1;'' = ''// @ts-nocheck'' @ [CHR 0x0A, CHR 0x0A] @ ''const a = 1;'' \<and>
   ensure_banner (ensure_banner ''const a = 1;'') = ensure_banner ''const a = 1;'' \<and>
   ensure_banner ([CHR 0x0A] @ ''  /* @ts-nocheck */ x'') = [CHR 0x0A] @ ''  /* @ts-nocheck */ x''"
proof -
  have n: "\<not> (startswith (lstrip ''const a = 1;'') ''// @ts-nocheck'' \<or>
              startswith (lstrip ''const a = 1;'') ''/* @ts-nocheck'')"
    by code_simp
  have y: "startswith (lstrip ([CHR 0x0A] @ ''  /* @ts-nocheck */ x'')) ''// @ts-nocheck'' \<or>
           startswith (lstrip ([CHR 0x0A] @ ''  /* @ts-nocheck */ x'')) ''/* @ts-nocheck''"
    by code_simp
  from n ensure_banner_idempotent[of "''const a = 1;''"]
  have 1: "ensure_banner ''const a = 1;'' = TS_NOCHECK_BANNER @ ''const a = 1;''"
    and 2: "ensure_banner (ensure_banner ''const a = 1;'') = ensure_banner ''const a = 1;''"
    by blast+
  from y ensure_banner_idempotent[of "[CHR 0x0A] @ ''  /* @ts-nocheck */ x''"]
  have 3: "ensure_banner ([CHR 0x0A] @ ''  /* @ts-nocheck */ x'') = [CHR 0x0A] @ ''  /* @ts-nocheck */ x''"
    by blast
  from 1 have "ensure_banner ''const a = 1;'' = ''// @ts-nocheck'' @ [CHR 0x0A, CHR 0x0A] @ ''const a = 1;''"
    by (simp add: TS_NOCHECK_BANNER_def)
  with 2 3 show ?thesis by blast
qed

text \<open>
  Claim C8.  When something already stands at the computed target path, \<open>convert_file\<close>
  returns \<open>None\<close> and leaves the file system as it was (nothing is written or deleted, so
  the source file keeps its content), and the loop of \<open>main\<close> adds one to \<open>skipped\<close>, leaves
  \<open>conversions\<close> as it is and goes on with the next file.
\<close>

theorem collision_is_skipped:
  assumes "files path = Some (File text)"
    and "with_suffix path (target_extension path text) = Inr new_path"
    and "files new_path \<noteq> None"
  shows "convert_file files path dry_run = Inr (files, None) \<and>
         (endswith (path_name path) ''.js'' \<longrightarrow>
            main_loop files dry_run (path # rest) conversions skipped =
            main_loop files dry_run rest conversions (skipped + 1))"
proof -
  have c: "convert_file files path dry_run = Inr (files, None)"
    using assms by (auto simp: convert_file_def Let_def)
  then show ?thesis by simp
qed

theorem collision_is_skipped_witness:
  "collision_fs [''utils'', ''date.js''] = Some (File ''export const a = 1;'') \<and>
   with_suffix [''utils'', ''date.js''] (target_extension [''utils'', ''date.js''] ''export const a = 1;'')
     = Inr [''utils'', ''date.ts''] \<and>
   collision_fs [''utils'', ''date.ts''] \<noteq> None \<and>
   convert_file collision_fs [''utils'', ''date.js''] False = Inr (collision_fs, None) \<and>
   main_loop collision_fs False [[''utils'', ''date.js'']] 0 0 = Inr (collision_fs, 0, 1)"
proof -
  have a: "collision_fs [''utils'', ''date.js''] = Some (File ''export const a = 1;'')"
    by (simp add: collision_fs_def)
  have t: "with_suffix [''utils'', ''date.js''] (target_extension [''utils'', ''date.js''] ''export const a = 1;'')
             = Inr [''utils'', ''date.ts'']"
    by code_simp
  have b: "collision_fs [''utils'', ''date.ts''] \<noteq> None"
    by (simp add: collision_fs_def)
  have e: "endswith (path_name [''utils'', ''date.js'']) ''.js''" by code_simp
  from collision_is_skipped[OF a t b, of False "[]" 0 0] e
  have "convert_file collision_fs [''utils'', ''date.js''] False = Inr (collision_fs, None)"
    and "main_loop collision_fs False [[''utils'', ''date.js'']] 0 0 = main_loop collision_fs False [] 0 (0 + 1)"
    by blast+
  then show ?thesis using a t b by simp
qed

end
